theory Spec2Isabelle
  imports Main "HOL-Library.Word"
begin

section \<open>Data model of the indexer\<close>

text \<open>
  Slots and epochs are Go \<open>uint64\<close> values, the two configuration counters are \<open>uint16\<close>.
  A root is a \<open>[]byte\<close>; the roots carried by a header are never nil, so a nil-able root
  (\<open>lastHeadRoot\<close>, \<open>epochTarget\<close>) is a \<open>root option\<close> with \<open>None\<close> for nil.
\<close>

type_synonym u64 = "64 word"
type_synonym u16 = "16 word"
type_synonym root = "8 word list"

text \<open>The block body is opaque to the indexer core: it is stored and handed on.\<close>

type_synonym body = nat

text \<open>
  \<open>header.Data.Root\<close>, \<open>header.Data.Header.Message.Slot\<close> and
  \<open>header.Data.Header.Message.ParentRoot\<close> are the three header fields the indexer reads.
\<close>

record header =
  Root :: root
  Slot :: u64
  ParentRoot :: root

record BlockInfo =
  Header :: header
  Block :: body
  Orphaned :: bool

text \<open>
  \<open>cachedBlocks\<close> is \<open>map[uint64][]*BlockInfo\<close>: a missing key reads as nil (\<open>None\<close>).
  The entries are pointers, and the only field ever written through them is \<open>Orphaned\<close>;
  a pointer into the cache is the pair of its slot key and its index in that slot's list,
  which never moves once the entry is appended.
\<close>

type_synonym cache = "u64 \<Rightarrow> BlockInfo list option"

datatype mutex = Locked | Unlocked

text \<open>One entry of the validator-set response: index, status, effective balance.\<close>

record validatorEntry =
  Index :: u64
  Status :: string
  EffectiveBalance :: u64

record EpochValidators =
  ValidatorsMutex :: mutex
  ValidatorCount :: u64
  EligibleAmount :: u64
  ValidatorBalances :: "u64 \<Rightarrow> u64 option"

record EpochAssignments =
  DependendRoot :: root
  DependendState :: string

text \<open>
  \<open>EpochStats.Validators\<close> is a pointer that a replacement \<open>EpochStats\<close> of the same epoch
  shares with its predecessor, so the validator sets live in a store indexed by address.
\<close>

record EpochStats =
  dependendRoot :: "root option"
  AssignmentsMutex :: mutex
  Validators :: nat
  Assignments :: "EpochAssignments option"

record indexerState =
  lastHeadBlock :: u64
  lastHeadRoot :: "root option"
  cachedBlocks :: cache
  epochStats :: "u64 \<Rightarrow> EpochStats option"
  validatorsStore :: "nat \<Rightarrow> EpochValidators option"
  validatorsNext :: nat
  headValidators :: "validatorEntry list option"
  headValidatorsSlot :: u64
  lowestCachedSlot :: u64
  lastProcessedEpoch :: u64
  cachedAssignments :: "(u64 \<times> EpochAssignments option) list"

text \<open>
  \<open>validatorsNext\<close> is the next unused address of the store: allocating an
  \<open>EpochValidators\<close> takes it and moves it on.
  \<open>cachedAssignments\<close> records the calls of \<open>rpcClient.AddCachedEpochAssignments\<close>, in order:
  the assignment cache of the RPC client is its own, the indexer only hands entries to it.
\<close>

record Indexer =
  writeDb :: bool
  inMemoryEpochs :: u16
  epochProcessingDelay :: u16
  synchronizerRunning :: bool

text \<open>
  \<open>utils.Config.Chain\<close> and \<open>utils.EpochOfSlot\<close>: the chain configuration and the chain
  clock are taken as parameters of the model.
\<close>

record chain =
  SlotsPerEpoch :: u64
  EpochOfSlot :: "u64 \<Rightarrow> u64"
  AltairForkEpoch :: u64
  WhiskForkEpoch :: "u64 option"

definition NewIndexerState :: indexerState where
  "NewIndexerState =
     \<lparr>lastHeadBlock = 0, lastHeadRoot = None, cachedBlocks = (\<lambda>_. None),
      epochStats = (\<lambda>_. None), validatorsStore = (\<lambda>_. None), validatorsNext = 0,
      headValidators = None,
      headValidatorsSlot = 0, lowestCachedSlot = 0, lastProcessedEpoch = 0,
      cachedAssignments = []\<rparr>"

section \<open>processHeadBlock: insertion and the reorg walks\<close>

text \<open>The duplicate check: compare the new root with every entry of the slot.\<close>

primrec hasRoot :: "root \<Rightarrow> BlockInfo list \<Rightarrow> bool" where
  "hasRoot r [] = False"
| "hasRoot r (b # bs) = (if Root (Header b) = r then True else hasRoot r bs)"

text \<open>
  The body of the reorg-base search at one slot. \<open>base\<close> is the triple
  \<open>reorgBaseSlot\<close>, \<open>reorgBaseIndex\<close>, \<open>reorgBaseBlock\<close>, held as the block's address.
\<close>

fun reorgScan ::
  "header \<Rightarrow> u64 \<Rightarrow> nat \<Rightarrow> BlockInfo list \<Rightarrow> (u64 \<times> nat) option
    \<Rightarrow> BlockInfo list \<times> (u64 \<times> nat) option" where
  "reorgScan h sidx bidx [] base = ([], base)"
| "reorgScan h sidx bidx (b # bs) base =
     (if Root (Header b) = Root h then
        (case reorgScan h sidx (Suc bidx) bs base of (bs', base') \<Rightarrow> (b # bs', base'))
      else if Root (Header b) = ParentRoot h then
        (case reorgScan h sidx (Suc bidx) bs (Some (sidx, bidx)) of
           (bs', base') \<Rightarrow> (b # bs', base'))
      else
        (case reorgScan h sidx (Suc bidx) bs base of
           (bs', base') \<Rightarrow> (b\<lparr>Orphaned := True\<rparr> # bs', base')))"

text \<open>
  \<open>for sidx := slot; sidx >= lowestCachedSlot; sidx--\<close> on \<open>uint64\<close>: the decrement wraps
  at 0, and the loop leaves only by its condition or by the break after a slot in which
  the base was found. A run that never leaves has no result (\<open>None\<close>).
\<close>

partial_function (option) reorgBaseLoop ::
  "cache \<Rightarrow> u64 \<Rightarrow> header \<Rightarrow> u64 \<Rightarrow> (cache \<times> (u64 \<times> nat) option) option" where
  "reorgBaseLoop cb lcs h sidx =
     (if lcs \<le> sidx then
        (case cb sidx of
           None \<Rightarrow> reorgBaseLoop cb lcs h (sidx - 1)
         | Some blocks \<Rightarrow>
             (case reorgScan h sidx 0 blocks None of
                (blocks', base) \<Rightarrow>
                  (case base of
                     Some p \<Rightarrow> Some (cb(sidx \<mapsto> blocks'), Some p)
                   | None \<Rightarrow> reorgBaseLoop (cb(sidx \<mapsto> blocks')) lcs h (sidx - 1))))
      else Some (cb, None))"

text \<open>
  The body of the re-canonicalization walk at one slot. \<open>ob\<close> is \<open>orphanedBlock\<close> with
  \<open>orphanedSlot\<close> and \<open>orphanedIndex\<close>: its header (never written) and its address.
\<close>

fun recanonScan ::
  "u64 \<Rightarrow> nat \<Rightarrow> BlockInfo list \<Rightarrow> header \<times> u64 \<times> nat \<Rightarrow> bool
    \<Rightarrow> BlockInfo list \<times> (header \<times> u64 \<times> nat) \<times> bool" where
  "recanonScan sidx bidx [] ob found = ([], ob, found)"
| "recanonScan sidx bidx (b # bs) ob found =
     (if Root (Header b) = ParentRoot (fst ob) then
        (case recanonScan sidx (Suc bidx) bs (Header b, sidx, bidx)
                (if \<not> Orphaned b then True else found) of
           (bs', r) \<Rightarrow> (b # bs', r))
      else
        (case recanonScan sidx (Suc bidx) bs ob found of
           (bs', r) \<Rightarrow> (b\<lparr>Orphaned := True\<rparr> # bs', r)))"

partial_function (option) recanonWalk ::
  "cache \<Rightarrow> u64 \<Rightarrow> u64 \<Rightarrow> header \<times> u64 \<times> nat
    \<Rightarrow> (cache \<times> (header \<times> u64 \<times> nat) \<times> bool) option" where
  "recanonWalk cb lcs sidx ob =
     (if lcs \<le> sidx then
        (case cb sidx of
           None \<Rightarrow> recanonWalk cb lcs (sidx - 1) ob
         | Some blocks \<Rightarrow>
             (case recanonScan sidx 0 blocks ob False of
                (blocks', ob', found) \<Rightarrow>
                  (if found then Some (cb(sidx \<mapsto> blocks'), ob', True)
                   else recanonWalk (cb(sidx \<mapsto> blocks')) lcs (sidx - 1) ob')))
      else Some (cb, ob, False))"

text \<open>Reading and writing \<open>Orphaned\<close> through a pointer into the cache.\<close>

definition orphanedAt :: "cache \<Rightarrow> u64 \<Rightarrow> nat \<Rightarrow> bool" where
  "orphanedAt cb slot idx =
     (case cb slot of None \<Rightarrow> False
      | Some bs \<Rightarrow> if idx < length bs then Orphaned (bs ! idx) else False)"

definition setOrphanedAt :: "cache \<Rightarrow> u64 \<Rightarrow> nat \<Rightarrow> bool \<Rightarrow> cache" where
  "setOrphanedAt cb slot idx v =
     (case cb slot of None \<Rightarrow> cb
      | Some bs \<Rightarrow>
          if idx < length bs then cb(slot \<mapsto> bs[idx := (bs ! idx)\<lparr>Orphaned := v\<rparr>]) else cb)"

text \<open>
  \<open>for orphanedBlock.Orphaned { ... }\<close>: clear the flag, then walk down from
  \<open>reorgBaseSlot - 1\<close> (the same start in every round). The result is the cache and
  \<open>resyncNeeded\<close>.
\<close>

partial_function (option) recanonLoop ::
  "cache \<Rightarrow> u64 \<Rightarrow> u64 \<Rightarrow> header \<times> u64 \<times> nat \<Rightarrow> bool \<Rightarrow> (cache \<times> bool) option" where
  "recanonLoop cb lcs reorgBaseSlot ob resyncNeeded =
     (if orphanedAt cb (fst (snd ob)) (snd (snd ob)) then
        Option.bind
          (recanonWalk (setOrphanedAt cb (fst (snd ob)) (snd (snd ob)) False) lcs
             (reorgBaseSlot - 1) ob)
          (\<lambda>r. recanonLoop (fst r) lcs reorgBaseSlot (fst (snd r))
                  (if \<not> snd (snd r) then True else resyncNeeded))
      else Some (cb, resyncNeeded))"

definition headerAt :: "cache \<Rightarrow> u64 \<Rightarrow> nat \<Rightarrow> header option" where
  "headerAt cb slot idx =
     (case cb slot of None \<Rightarrow> None
      | Some bs \<Rightarrow> if idx < length bs then Some (Header (bs ! idx)) else None)"

text \<open>The reorg branch of processHeadBlock: cache after the walks, and \<open>resyncNeeded\<close>.\<close>

definition reorgResolve :: "cache \<Rightarrow> u64 \<Rightarrow> header \<Rightarrow> u64 \<Rightarrow> (cache \<times> bool) option" where
  "reorgResolve cb lcs h slot =
     Option.bind (reorgBaseLoop cb lcs h slot)
       (\<lambda>r. case snd r of
               None \<Rightarrow> Some (fst r, True)
             | Some (bslot, bidx) \<Rightarrow>
                 (case headerAt (fst r) bslot bidx of
                    None \<Rightarrow> Some (fst r, True)
                  | Some bh \<Rightarrow> recanonLoop (fst r) lcs bslot (bh, bslot, bidx) False))"

text \<open>
  processHeadBlock returns the new state and the inserted \<open>BlockInfo\<close>, or nil (\<open>None\<close>)
  with the state untouched when the root is already cached at the slot. The outer
  \<open>option\<close> is \<open>None\<close> when a walk never leaves its loop.
\<close>

definition processHeadBlock ::
  "indexerState \<Rightarrow> u64 \<Rightarrow> header \<Rightarrow> body \<Rightarrow> (indexerState \<times> BlockInfo option) option" where
  "processHeadBlock s slot h blk =
     (let blockInfo = \<lparr>Header = h, Block = blk, Orphaned = False\<rparr> in
      if (case cachedBlocks s slot of None \<Rightarrow> False | Some blocks \<Rightarrow> hasRoot (Root h) blocks)
      then Some (s, None)
      else
        (let cb1 = (case cachedBlocks s slot of
                      None \<Rightarrow> (cachedBlocks s)(slot \<mapsto> [blockInfo])
                    | Some blocks \<Rightarrow> (cachedBlocks s)(slot \<mapsto> blocks @ [blockInfo]));
             lcs1 = (if lowestCachedSlot s = 0 \<or> slot < lowestCachedSlot s then slot
                     else lowestCachedSlot s)
         in Option.bind
              (case lastHeadRoot s of
                 None \<Rightarrow> Some (cb1, False)
               | Some lr \<Rightarrow>
                   if lr \<noteq> ParentRoot h then reorgResolve cb1 lcs1 h slot
                   else Some (cb1, False))
              (\<lambda>r. Some (s\<lparr>cachedBlocks := fst r, lowestCachedSlot := lcs1,
                            lastHeadBlock := slot, lastHeadRoot := Some (Root h)\<rparr>,
                         Some blockInfo))))"

section \<open>Readers of the cache\<close>

definition GetCachedBlocks :: "indexerState \<Rightarrow> u64 \<Rightarrow> BlockInfo list option" where
  "GetCachedBlocks s slot =
     (if slot < lowestCachedSlot s then None else cachedBlocks s slot)"

section \<open>The epoch target\<close>

text \<open>The inner loop of both target searches: the first entry with \<open>Orphaned\<close> unset.\<close>

primrec firstCanonical :: "BlockInfo list \<Rightarrow> BlockInfo option" where
  "firstCanonical [] = None"
| "firstCanonical (b # bs) = (if \<not> Orphaned b then Some b else firstCanonical bs)"

text \<open>
  \<open>slotLoop\<close> of processEpoch: \<open>for slot := firstSlot; slot <= lastSlot; slot++\<close> on
  \<open>uint64\<close>. The result is \<open>epochTarget\<close>, nil (\<open>None\<close>) when the loop ends by its condition.
\<close>

partial_function (option) epochTargetLoop ::
  "cache \<Rightarrow> u64 \<Rightarrow> u64 \<Rightarrow> u64 \<Rightarrow> root option option" where
  "epochTargetLoop cb firstSlot lastSlot slot =
     (if slot \<le> lastSlot then
        (case cb slot of
           None \<Rightarrow> epochTargetLoop cb firstSlot lastSlot (slot + 1)
         | Some blocks \<Rightarrow>
             (case firstCanonical blocks of
                Some b \<Rightarrow>
                  Some (Some (if slot = firstSlot then Root (Header b)
                              else ParentRoot (Header b)))
              | None \<Rightarrow> epochTargetLoop cb firstSlot lastSlot (slot + 1)))
      else Some None)"

text \<open>\<open>slotLoop\<close> of BuildLiveEpoch: the result is \<open>firstBlock\<close>.\<close>

partial_function (option) firstBlockLoop ::
  "cache \<Rightarrow> u64 \<Rightarrow> u64 \<Rightarrow> BlockInfo option option" where
  "firstBlockLoop cb lastSlot slot =
     (if slot \<le> lastSlot then
        (case cb slot of
           None \<Rightarrow> firstBlockLoop cb lastSlot (slot + 1)
         | Some blocks \<Rightarrow>
             (case firstCanonical blocks of
                Some b \<Rightarrow> Some (Some b)
              | None \<Rightarrow> firstBlockLoop cb lastSlot (slot + 1)))
      else Some None)"

text \<open>
  BuildLiveEpoch up to the target root it hands to the vote aggregation and the row
  builder: \<open>Some None\<close> is the nil return, \<open>Some (Some t)\<close> the epoch built for target
  \<open>t\<close>, \<open>None\<close> a slot loop that never ends.
\<close>

definition BuildLiveEpoch :: "chain \<Rightarrow> indexerState \<Rightarrow> u64 \<Rightarrow> root option option" where
  "BuildLiveEpoch cfg s epoch =
     (case epochStats s epoch of
        None \<Rightarrow> Some None
      | Some es \<Rightarrow>
          (let firstSlot = epoch * SlotsPerEpoch cfg;
               lastSlot = firstSlot + SlotsPerEpoch cfg - 1
           in Option.bind (firstBlockLoop (cachedBlocks s) lastSlot firstSlot)
                (\<lambda>fb. case fb of
                   None \<Rightarrow> Some None
                 | Some firstBlock \<Rightarrow>
                     Some (Some (if Slot (Header firstBlock) = firstSlot
                                 then Root (Header firstBlock)
                                 else ParentRoot (Header firstBlock))))))"

section \<open>processEpoch and the processing frontier\<close>

text \<open>
  What stops a call short of returning: a nil pointer dereference (a panic), a wait on
  a latch that is held (the call resumes only when another task releases it), and the
  runtime's fatal error on unlocking a mutex that is not locked.
\<close>

datatype fault = NilDereference | LatchHeld | UnlockOfUnlockedMutex

text \<open>The four return points of processEpoch.\<close>

datatype epochOutcome = NoTargetBlock | DbBeginFailed | DbCommitFailed | EpochProcessed root

text \<open>
  The database is a collaborator: whether each of its four calls in processEpoch
  succeeds is an input of the model.
\<close>

record dbRun =
  beginOk :: bool
  persistOk :: bool
  setStateOk :: bool
  commitOk :: bool

definition processEpoch ::
  "chain \<Rightarrow> Indexer \<Rightarrow> dbRun \<Rightarrow> indexerState \<Rightarrow> u64 \<Rightarrow> (fault + epochOutcome) option" where
  "processEpoch cfg ix db s epoch =
     (let firstSlot = epoch * SlotsPerEpoch cfg;
          lastSlot = firstSlot + SlotsPerEpoch cfg - 1
      in case epochStats s epoch of
           None \<Rightarrow> Some (Inl NilDereference)
         | Some es \<Rightarrow>
             (case validatorsStore s (Validators es) of
                None \<Rightarrow> Some (Inl NilDereference)
              | Some v \<Rightarrow>
                  (case ValidatorsMutex v of
                     Locked \<Rightarrow> Some (Inl LatchHeld)
                   | Unlocked \<Rightarrow>
                       Option.bind
                         (epochTargetLoop (cachedBlocks s) firstSlot lastSlot firstSlot)
                         (\<lambda>t. case t of
                            None \<Rightarrow> Some (Inr NoTargetBlock)
                          | Some epochTarget \<Rightarrow>
                              if writeDb ix then
                                (if beginOk db then
                                   (if commitOk db then Some (Inr (EpochProcessed epochTarget))
                                    else Some (Inr DbCommitFailed))
                                 else Some (Inr DbBeginFailed))
                              else Some (Inr (EpochProcessed epochTarget))))))"

text \<open>The local \<open>processEpoch\<close> of processIndexing: \<open>uint64\<close> subtraction.\<close>

definition frontierEpoch :: "chain \<Rightarrow> Indexer \<Rightarrow> indexerState \<Rightarrow> u64" where
  "frontierEpoch cfg ix s =
     EpochOfSlot cfg (lastHeadBlock s) - ucast (epochProcessingDelay ix)"

text \<open>
  processIndexing returns the state and, when it called processEpoch, that call's
  outcome. The assignment to \<open>lastProcessedEpoch\<close> follows the call whatever it returned.
\<close>

definition processIndexing ::
  "chain \<Rightarrow> Indexer \<Rightarrow> dbRun \<Rightarrow> indexerState
    \<Rightarrow> (fault + indexerState \<times> epochOutcome option) option" where
  "processIndexing cfg ix db s =
     (if lastProcessedEpoch s < frontierEpoch cfg ix s then
        Option.bind (processEpoch cfg ix db s (frontierEpoch cfg ix s))
          (\<lambda>r. case r of
             Inl f \<Rightarrow> Some (Inl f)
           | Inr out \<Rightarrow>
               Some (Inr (s\<lparr>lastProcessedEpoch := frontierEpoch cfg ix s\<rparr>, Some out)))
      else Some (Inr (s, None)))"

text \<open>
  The start of runIndexer. \<open>currentEpoch\<close> is the \<open>int64\<close> that \<open>utils.TimeToEpoch\<close>
  returns, compared as a signed value; \<open>afterGenesis\<close> is \<open>now.Compare(genesisTime) > 0\<close>.
\<close>

definition bootstrap ::
  "chain \<Rightarrow> Indexer \<Rightarrow> bool \<Rightarrow> u64 \<Rightarrow> indexerState \<Rightarrow> indexerState" where
  "bootstrap cfg ix afterGenesis currentEpoch s =
     (if afterGenesis then
        (let s1 = (if ucast (inMemoryEpochs ix) <s currentEpoch
                   then s\<lparr>lastHeadBlock :=
                            (currentEpoch - ucast (inMemoryEpochs ix) + 1) * SlotsPerEpoch cfg - 1\<rparr>
                   else s)
         in if ucast (epochProcessingDelay ix) <s currentEpoch
            then s1\<lparr>lastProcessedEpoch := currentEpoch - ucast (epochProcessingDelay ix)\<rparr>
            else s1)
      else s)"

section \<open>processCacheCleanup\<close>

text \<open>The locals \<open>cleanEpoch\<close> and the bound of the drop loop.\<close>

definition cleanEpoch :: "chain \<Rightarrow> Indexer \<Rightarrow> indexerState \<Rightarrow> u64" where
  "cleanEpoch cfg ix s = EpochOfSlot cfg (lastHeadBlock s) - ucast (inMemoryEpochs ix)"

definition cleanLimit :: "chain \<Rightarrow> Indexer \<Rightarrow> indexerState \<Rightarrow> u64" where
  "cleanLimit cfg ix s = (cleanEpoch cfg ix s + 1) * SlotsPerEpoch cfg"

text \<open>\<open>for lowestCachedSlot < limit { delete the slot if cached; lowestCachedSlot++ }\<close>\<close>

function dropLoop :: "cache \<Rightarrow> u64 \<Rightarrow> u64 \<Rightarrow> cache \<times> u64" where
  "dropLoop cb lcs limit =
     (if lcs < limit
      then dropLoop (if cb lcs \<noteq> None then cb(lcs := None) else cb) (lcs + 1) limit
      else (cb, lcs))"
  by pat_completeness auto
termination
proof (relation "measure (\<lambda>(cb, lcs, limit). unat (limit - lcs))", goal_cases)
  case 1
  show ?case by simp
next
  case (2 cb lcs limit)
  then have a: "unat lcs < unat limit" by (simp add: word_less_nat_alt)
  have b: "unat limit < 2 ^ 64" using unsigned_less[of limit] by simp
  from a b have c: "unat (lcs + 1) = unat lcs + 1" by (simp add: unat_word_ariths)
  have "lcs + 1 \<le> limit" "lcs \<le> limit" using a c by (simp_all add: word_le_nat_alt)
  then have "unat (limit - (lcs + 1)) = unat limit - unat (lcs + 1)"
    "unat (limit - lcs) = unat limit - unat lcs"
    by (simp_all add: unat_sub)
  with a c show ?case by simp
qed

definition processCacheCleanup :: "chain \<Rightarrow> Indexer \<Rightarrow> indexerState \<Rightarrow> indexerState" where
  "processCacheCleanup cfg ix s =
     (if lowestCachedSlot s < cleanLimit cfg ix s then
        (let r = dropLoop (cachedBlocks s) (lowestCachedSlot s) (cleanLimit cfg ix s);
             s1 = s\<lparr>cachedBlocks := fst r, lowestCachedSlot := snd r\<rparr>
         in case epochStats s1 (cleanEpoch cfg ix s) of
              None \<Rightarrow> s1
            | Some es \<Rightarrow>
                s1\<lparr>cachedAssignments :=
                      cachedAssignments s1 @ [(cleanEpoch cfg ix s, Assignments es)],
                    epochStats := (epochStats s1)(cleanEpoch cfg ix s := None)\<rparr>)
      else s)"

section \<open>Epoch stats and the validator-set fetch\<close>

text \<open>\<open>bytes.Equal\<close> on two slices that may be nil: nil equals the empty slice.\<close>

definition bytesEqual :: "root option \<Rightarrow> root option \<Rightarrow> bool" where
  "bytesEqual a b =
     ((case a of None \<Rightarrow> [] | Some x \<Rightarrow> x) = (case b of None \<Rightarrow> [] | Some y \<Rightarrow> y))"

text \<open>
  newEpochStats returns the new \<open>EpochStats\<close> (nil when nothing is to be done) and
  \<open>loadStats\<close>. A first \<open>EpochStats\<close> of an epoch gets a fresh \<open>EpochValidators\<close> whose
  latch is locked; a replacement shares its predecessor's.
\<close>

definition newEpochStats ::
  "indexerState \<Rightarrow> u64 \<Rightarrow> root option \<Rightarrow> indexerState \<times> EpochStats option \<times> bool" where
  "newEpochStats s epoch dependentRoot =
     (if epoch < lastProcessedEpoch s then (s, None, False)
      else
        (case epochStats s epoch of
           Some oldEpochStats \<Rightarrow>
             if bytesEqual (dependendRoot oldEpochStats) dependentRoot then (s, None, False)
             else
               (let es = \<lparr>dependendRoot = dependentRoot, AssignmentsMutex = Locked,
                          Validators = Validators oldEpochStats, Assignments = None\<rparr>
                in (s\<lparr>epochStats := (epochStats s)(epoch \<mapsto> es)\<rparr>, Some es, False))
         | None \<Rightarrow>
             (let es = \<lparr>dependendRoot = dependentRoot, AssignmentsMutex = Locked,
                        Validators = validatorsNext s, Assignments = None\<rparr>
              in (s\<lparr>epochStats := (epochStats s)(epoch \<mapsto> es),
                    validatorsStore := (validatorsStore s)(validatorsNext s \<mapsto>
                      \<lparr>ValidatorsMutex = Locked, ValidatorCount = 0, EligibleAmount = 0,
                       ValidatorBalances = (\<lambda>_. None)\<rparr>),
                    validatorsNext := Suc (validatorsNext s)\<rparr>,
                  Some es, True))))"

text \<open>
  \<open>ValidatorsMutex.Unlock()\<close> on the validator set at an address. Unlocking a mutex
  that is not locked is fatal.
\<close>

definition unlockValidators :: "nat \<Rightarrow> indexerState \<Rightarrow> fault option \<times> indexerState" where
  "unlockValidators a s =
     (case validatorsStore s a of
        None \<Rightarrow> (Some NilDereference, s)
      | Some v \<Rightarrow>
          (case ValidatorsMutex v of
             Locked \<Rightarrow>
               (None, s\<lparr>validatorsStore := (validatorsStore s)(a \<mapsto> v\<lparr>ValidatorsMutex := Unlocked\<rparr>)\<rparr>)
           | Unlocked \<Rightarrow> (Some UnlockOfUnlockedMutex, s)))"

text \<open>The loop over \<open>epochValidators.Data\<close>.\<close>

fun loadValidators :: "validatorEntry list \<Rightarrow> EpochValidators \<Rightarrow> EpochValidators" where
  "loadValidators [] v = v"
| "loadValidators (x # xs) v =
     (let v1 = v\<lparr>ValidatorBalances := (ValidatorBalances v)(Index x \<mapsto> EffectiveBalance x)\<rparr>
      in if Status x \<noteq> ''active_ongoing'' then loadValidators xs v1
         else loadValidators xs
                (v1\<lparr>ValidatorCount := ValidatorCount v1 + 1,
                    EligibleAmount := EligibleAmount v1 + EffectiveBalance x\<rparr>))"

definition storeValidators ::
  "validatorEntry list \<Rightarrow> u64 \<Rightarrow> EpochStats \<Rightarrow> indexerState \<Rightarrow> indexerState" where
  "storeValidators resp epoch es s =
     (let s1 = (if headValidatorsSlot s < epoch then s\<lparr>headValidators := Some resp\<rparr> else s)
      in case validatorsStore s1 (Validators es) of
           None \<Rightarrow> s1
         | Some v \<Rightarrow>
             s1\<lparr>validatorsStore := (validatorsStore s1)(Validators es \<mapsto> loadValidators resp v)\<rparr>)"

text \<open>
  loadEpochStats. Its first statement defers the unlock of the latch, so the unlock
  runs on every way out: after the failed fetch, after the stored response, and while
  the panic of reading \<open>Assignments.DependendState\<close> through a nil \<open>Assignments\<close> unwinds.
  \<open>rpc\<close> is \<open>rpcClient.GetStateValidators\<close>: an error or the response's entries. The
  result is the fault that ended the task, if any, and the state it leaves.
\<close>

definition loadEpochStats ::
  "(string \<Rightarrow> string + validatorEntry list) \<Rightarrow> indexerState \<Rightarrow> u64 \<Rightarrow> EpochStats
    \<Rightarrow> fault option \<times> indexerState" where
  "loadEpochStats rpc s epoch es =
     (case validatorsStore s (Validators es) of
        None \<Rightarrow> (Some NilDereference, s)
      | Some v0 \<Rightarrow>
          (case Assignments es of
             None \<Rightarrow>
               (case unlockValidators (Validators es) s of
                  (None, s') \<Rightarrow> (Some NilDereference, s')
                | (Some f, s') \<Rightarrow> (Some f, s'))
           | Some a \<Rightarrow>
               (case rpc (DependendState a) of
                  Inl err \<Rightarrow> unlockValidators (Validators es) s
                | Inr resp \<Rightarrow>
                    unlockValidators (Validators es) (storeValidators resp epoch es s))))"

section \<open>The duty endpoints of the RPC client\<close>

datatype rpcError =
  BeforeAltair u64 | SyncCommitteesNotSupported | ProviderError string
  | ProposerDutiesError string

text \<open>
  A Go result pair \<open>(value, error)\<close>: \<open>(None, None)\<close> is \<open>nil, nil\<close>. \<open>getJson\<close> and
  \<open>provider\<close> are the HTTP collaborators, \<open>isProvider\<close> the type assertion on the client.
\<close>

definition GetProposerDuties ::
  "chain \<Rightarrow> (u64 \<Rightarrow> string + 'd) \<Rightarrow> u64 \<Rightarrow> 'd option \<times> rpcError option" where
  "GetProposerDuties cfg getJson epoch =
     (if (case WhiskForkEpoch cfg of None \<Rightarrow> False | Some w \<Rightarrow> w \<le> epoch) then (None, None)
      else
        (case getJson epoch of
           Inl err \<Rightarrow> (None, Some (ProposerDutiesError err))
         | Inr duties \<Rightarrow> (Some duties, None)))"

definition GetSyncCommitteeDuties ::
  "chain \<Rightarrow> bool \<Rightarrow> (string \<Rightarrow> u64 \<Rightarrow> string + 'c) \<Rightarrow> string \<Rightarrow> u64
    \<Rightarrow> 'c option \<times> rpcError option" where
  "GetSyncCommitteeDuties cfg isProvider provider stateRef epoch =
     (if epoch < AltairForkEpoch cfg then (None, Some (BeforeAltair epoch))
      else if \<not> isProvider then (None, Some SyncCommitteesNotSupported)
      else
        (case provider stateRef epoch of
           Inl err \<Rightarrow> (None, Some (ProviderError err))
         | Inr result \<Rightarrow> (Some result, None)))"

section \<open>Predicates and reference functions of the statements\<close>

text \<open>The headers of a cache: what the walks never change.\<close>

definition cacheHeaders :: "cache \<Rightarrow> u64 \<Rightarrow> header list option" where
  "cacheHeaders cb = (\<lambda>s. map_option (map Header) (cb s))"

text \<open>Some cached block other than the new head carries the new head's parent root.\<close>

definition parentCached :: "header \<Rightarrow> cache \<Rightarrow> bool" where
  "parentCached h cb =
     (\<exists>sidx blocks b. cb sidx = Some blocks \<and> b \<in> set blocks
        \<and> Root (Header b) \<noteq> Root h \<and> Root (Header b) = ParentRoot h)"

definition rootCached :: "root \<Rightarrow> cache \<Rightarrow> bool" where
  "rootCached r cb =
     (\<exists>sidx blocks b. cb sidx = Some blocks \<and> b \<in> set blocks \<and> Root (Header b) = r)"

text \<open>Every cached block sits under the slot of its own header.\<close>

definition slotKeyed :: "cache \<Rightarrow> bool" where
  "slotKeyed cb =
     (\<forall>slot blocks b. cb slot = Some blocks \<longrightarrow> b \<in> set blocks \<longrightarrow> Slot (Header b) = slot)"

text \<open>
  The specification's reading of the epoch target: walk the slots \<open>firstSlot..lastSlot\<close>,
  take the first non-orphaned block \<open>b\<close>; the target is \<open>b\<close>'s root when \<open>b\<close>'s slot is
  \<open>firstSlot\<close>, its parent root otherwise; there is none when no such block exists.
\<close>

definition slotRange :: "u64 \<Rightarrow> u64 \<Rightarrow> u64 list" where
  "slotRange firstSlot lastSlot = map word_of_nat [unat firstSlot ..< Suc (unat lastSlot)]"

fun firstCanonicalIn :: "cache \<Rightarrow> u64 list \<Rightarrow> (u64 \<times> BlockInfo) option" where
  "firstCanonicalIn cb [] = None"
| "firstCanonicalIn cb (s # ss) =
     (case cb s of
        None \<Rightarrow> firstCanonicalIn cb ss
      | Some blocks \<Rightarrow>
          (case List.find (\<lambda>b. \<not> Orphaned b) blocks of
             Some b \<Rightarrow> Some (s, b)
           | None \<Rightarrow> firstCanonicalIn cb ss))"

definition epochTarget_spec :: "cache \<Rightarrow> u64 \<Rightarrow> u64 \<Rightarrow> root option" where
  "epochTarget_spec cb firstSlot lastSlot =
     (case firstCanonicalIn cb (slotRange firstSlot lastSlot) of
        None \<Rightarrow> None
      | Some (s, b) \<Rightarrow>
          Some (if s = firstSlot then Root (Header b) else ParentRoot (Header b)))"

section \<open>Configurations and states of the examples\<close>

text \<open>
  A chain of 32 slots per epoch, an indexer that keeps three epochs in memory and
  processes with a delay of one epoch, and the states the closed examples run on.
\<close>

definition exampleChain :: chain where
  "exampleChain =
     \<lparr>SlotsPerEpoch = 32, EpochOfSlot = (\<lambda>slot. slot div 32), AltairForkEpoch = 10,
      WhiskForkEpoch = Some 100\<rparr>"

definition exampleIndexer :: Indexer where
  "exampleIndexer =
     \<lparr>writeDb = True, inMemoryEpochs = 3, epochProcessingDelay = 1,
      synchronizerRunning = False\<rparr>"

definition dbOk :: dbRun where
  "dbOk = \<lparr>beginOk = True, persistOk = True, setStateOk = True, commitOk = True\<rparr>"

definition dbCommitFails :: dbRun where
  "dbCommitFails = \<lparr>beginOk = True, persistOk = True, setStateOk = True, commitOk = False\<rparr>"

definition exampleStats :: EpochStats where
  "exampleStats =
     \<lparr>dependendRoot = Some [7], AssignmentsMutex = Unlocked, Validators = 0,
      Assignments = Some \<lparr>DependendRoot = [7], DependendState = ''0x07''\<rparr>\<rparr>"

definition readyValidators :: EpochValidators where
  "readyValidators =
     \<lparr>ValidatorsMutex = Unlocked, ValidatorCount = 0, EligibleAmount = 0,
      ValidatorBalances = (\<lambda>_. None)\<rparr>"

definition exampleBlock :: "u64 \<Rightarrow> BlockInfo" where
  "exampleBlock slot =
     \<lparr>Header = \<lparr>Root = [1], Slot = slot, ParentRoot = [0]\<rparr>, Block = 0, Orphaned = False\<rparr>"

text \<open>Slot 9 holds the head; nothing else is cached.\<close>

definition branchState :: indexerState where
  "branchState =
     NewIndexerState\<lparr>cachedBlocks :=
         [9 \<mapsto> [\<lparr>Header = \<lparr>Root = [9], Slot = 9, ParentRoot = [8]\<rparr>, Block = 0,
                   Orphaned = False\<rparr>]],
       lastHeadRoot := Some [9], lastHeadBlock := 9, lowestCachedSlot := 9\<rparr>"

text \<open>The head is in epoch 2, epoch 1 has its stats and no block.\<close>

definition frontierState :: indexerState where
  "frontierState =
     NewIndexerState\<lparr>lastHeadBlock := 64, epochStats := [1 \<mapsto> exampleStats],
       validatorsStore := [0 \<mapsto> readyValidators], validatorsNext := 1\<rparr>"

text \<open>Epoch 1 with an orphaned and a canonical block at slot 33.\<close>

definition liveState :: indexerState where
  "liveState =
     NewIndexerState\<lparr>cachedBlocks :=
         [33 \<mapsto> [\<lparr>Header = \<lparr>Root = [4], Slot = 33, ParentRoot = [3]\<rparr>, Block = 0,
                    Orphaned = True\<rparr>,
                   \<lparr>Header = \<lparr>Root = [6], Slot = 33, ParentRoot = [5]\<rparr>, Block = 0,
                    Orphaned = False\<rparr>]],
       lastHeadBlock := 64, lowestCachedSlot := 33, lastHeadRoot := Some [6],
       epochStats := [1 \<mapsto> exampleStats],
       validatorsStore := [0 \<mapsto> readyValidators], validatorsNext := 1\<rparr>"

text \<open>
  A block at slot 0 and stats for the epochs \<open>2^59 - 1\<close> and \<open>2^64 - 1\<close>, whose slots
  end at \<open>2^64 - 1\<close>.
\<close>

definition wrapState :: indexerState where
  "wrapState =
     NewIndexerState\<lparr>cachedBlocks := [0 \<mapsto> [exampleBlock 0]],
       epochStats := [18446744073709551615 \<mapsto> exampleStats,
                      576460752303423487 \<mapsto> exampleStats],
       validatorsStore := [0 \<mapsto> readyValidators], validatorsNext := 1\<rparr>"

text \<open>The head is in epoch 5; the watermark is at slot 60, in epoch 1.\<close>

definition cleanupState :: indexerState where
  "cleanupState =
     NewIndexerState\<lparr>lastHeadBlock := 163, lowestCachedSlot := 60,
       cachedBlocks := [60 \<mapsto> [exampleBlock 60], 100 \<mapsto> [exampleBlock 100]],
       epochStats := [2 \<mapsto> exampleStats], validatorsStore := [0 \<mapsto> readyValidators],
       validatorsNext := 1\<rparr>"

text \<open>The head is in epoch 5; the watermark is already past epoch 2, whose stats are cached.\<close>

definition idleCleanupState :: indexerState where
  "idleCleanupState =
     NewIndexerState\<lparr>lastHeadBlock := 163, lowestCachedSlot := 100,
       cachedBlocks := [100 \<mapsto> [exampleBlock 100]],
       epochStats := [2 \<mapsto> exampleStats], validatorsStore := [0 \<mapsto> readyValidators],
       validatorsNext := 1\<rparr>"

text \<open>Blocks at slots 0, 1 and 163, inserted in this order into the new indexer.\<close>

definition genesisHeadState :: indexerState where
  "genesisHeadState =
     NewIndexerState\<lparr>cachedBlocks :=
         [0 \<mapsto> [\<lparr>Header = \<lparr>Root = [1], Slot = 0, ParentRoot = [0]\<rparr>, Block = 0,
                   Orphaned = False\<rparr>],
          1 \<mapsto> [\<lparr>Header = \<lparr>Root = [2], Slot = 1, ParentRoot = [1]\<rparr>, Block = 0,
                   Orphaned = False\<rparr>],
          163 \<mapsto> [\<lparr>Header = \<lparr>Root = [3], Slot = 163, ParentRoot = [2]\<rparr>, Block = 0,
                     Orphaned = False\<rparr>]],
       lowestCachedSlot := 1, lastHeadBlock := 163, lastHeadRoot := Some [3]\<rparr>"

text \<open>Epoch 1 has its stats, and the validator set behind them is still being fetched.\<close>

definition latchState :: indexerState where
  "latchState =
     NewIndexerState\<lparr>epochStats := [1 \<mapsto> exampleStats],
       validatorsStore := [0 \<mapsto> readyValidators\<lparr>ValidatorsMutex := Locked\<rparr>],
       validatorsNext := 1\<rparr>"

section \<open>Unfolding the walks one step\<close>

lemma reorgBaseLoop_stop:
  "\<not> lcs \<le> sidx \<Longrightarrow> reorgBaseLoop cb lcs h sidx = Some (cb, None)"
  by (subst reorgBaseLoop.simps) simp

lemma reorgBaseLoop_skip:
  "lcs \<le> sidx \<Longrightarrow> cb sidx = None
    \<Longrightarrow> reorgBaseLoop cb lcs h sidx = reorgBaseLoop cb lcs h (sidx - 1)"
  by (subst reorgBaseLoop.simps) simp

lemma reorgBaseLoop_scan:
  "lcs \<le> sidx \<Longrightarrow> cb sidx = Some blocks \<Longrightarrow>
   reorgBaseLoop cb lcs h sidx =
     (case snd (reorgScan h sidx 0 blocks None) of
        Some p \<Rightarrow> Some (cb(sidx \<mapsto> fst (reorgScan h sidx 0 blocks None)), Some p)
      | None \<Rightarrow>
          reorgBaseLoop (cb(sidx \<mapsto> fst (reorgScan h sidx 0 blocks None))) lcs h (sidx - 1))"
  by (subst reorgBaseLoop.simps) (simp add: case_prod_beta)

lemma recanonWalk_stop:
  "\<not> lcs \<le> sidx \<Longrightarrow> recanonWalk cb lcs sidx ob = Some (cb, ob, False)"
  by (subst recanonWalk.simps) simp

lemma recanonWalk_skip:
  "lcs \<le> sidx \<Longrightarrow> cb sidx = None
    \<Longrightarrow> recanonWalk cb lcs sidx ob = recanonWalk cb lcs (sidx - 1) ob"
  by (subst recanonWalk.simps) simp

lemma recanonWalk_scan:
  "lcs \<le> sidx \<Longrightarrow> cb sidx = Some blocks \<Longrightarrow>
   recanonWalk cb lcs sidx ob =
     (if snd (snd (recanonScan sidx 0 blocks ob False))
      then Some (cb(sidx \<mapsto> fst (recanonScan sidx 0 blocks ob False)),
                 fst (snd (recanonScan sidx 0 blocks ob False)), True)
      else recanonWalk (cb(sidx \<mapsto> fst (recanonScan sidx 0 blocks ob False))) lcs (sidx - 1)
             (fst (snd (recanonScan sidx 0 blocks ob False))))"
  by (subst recanonWalk.simps) (simp add: case_prod_beta)

lemma recanonLoop_stop:
  "\<not> orphanedAt cb (fst (snd ob)) (snd (snd ob))
    \<Longrightarrow> recanonLoop cb lcs bslot ob r = Some (cb, r)"
  by (subst recanonLoop.simps) simp

lemma recanonLoop_round:
  "orphanedAt cb (fst (snd ob)) (snd (snd ob)) \<Longrightarrow>
   recanonLoop cb lcs bslot ob r =
     Option.bind
       (recanonWalk (setOrphanedAt cb (fst (snd ob)) (snd (snd ob)) False) lcs (bslot - 1) ob)
       (\<lambda>x. recanonLoop (fst x) lcs bslot (fst (snd x)) (if \<not> snd (snd x) then True else r))"
  by (subst recanonLoop.simps) simp

lemmas walk_steps =
  reorgBaseLoop_stop reorgBaseLoop_skip reorgBaseLoop_scan
  recanonWalk_stop recanonWalk_skip recanonWalk_scan
  recanonLoop_stop recanonLoop_round

lemmas head_defs =
  processHeadBlock_def reorgResolve_def headerAt_def orphanedAt_def setOrphanedAt_def Let_def

section \<open>The one-slot reorg and its re-canonicalization\<close>

text \<open>
  C3. Start from any cache whose slot 9 holds one canonical block \<open>g\<close> that is the last
  head, with nothing cached at slots 10 to 12 and the watermark at or below 9. Insert
  \<open>A\<close> at slot 10 (parent \<open>g\<close>), \<open>B\<close> at slot 10 (parent \<open>g\<close>) and \<open>C\<close> at slot 11
  (parent \<open>B\<close>): the cache then has \<open>A\<close> orphaned, \<open>B\<close> and \<open>C\<close> canonical. Insert
  \<open>D\<close> at slot 12 with parent \<open>A\<close>: the cache then has \<open>A\<close> and \<open>D\<close> canonical, \<open>B\<close> and
  \<open>C\<close> orphaned. The five roots are pairwise different.
\<close>

theorem one_slot_reorg_then_recanonicalize:
  fixes s :: indexerState
  assumes g: "cachedBlocks s 9 = Some [g]" "\<not> Orphaned g"
    and hd: "lastHeadRoot s = Some (Root (Header g))"
    and e: "cachedBlocks s 10 = None" "cachedBlocks s 11 = None" "cachedBlocks s 12 = None"
    and lcs: "lowestCachedSlot s \<le> 9"
    and p: "ParentRoot hA = Root (Header g)" "ParentRoot hB = Root (Header g)"
      "ParentRoot hC = Root hB" "ParentRoot hD = Root hA"
    and d: "distinct [Root (Header g), Root hA, Root hB, Root hC, Root hD]"
  shows "\<exists>s1 s2 s3 s4.
      processHeadBlock s 10 hA bA = Some (s1, Some \<lparr>Header = hA, Block = bA, Orphaned = False\<rparr>)
    \<and> processHeadBlock s1 10 hB bB = Some (s2, Some \<lparr>Header = hB, Block = bB, Orphaned = False\<rparr>)
    \<and> processHeadBlock s2 11 hC bC = Some (s3, Some \<lparr>Header = hC, Block = bC, Orphaned = False\<rparr>)
    \<and> cachedBlocks s3 10 = Some [\<lparr>Header = hA, Block = bA, Orphaned = True\<rparr>,
                                 \<lparr>Header = hB, Block = bB, Orphaned = False\<rparr>]
    \<and> cachedBlocks s3 11 = Some [\<lparr>Header = hC, Block = bC, Orphaned = False\<rparr>]
    \<and> processHeadBlock s3 12 hD bD = Some (s4, Some \<lparr>Header = hD, Block = bD, Orphaned = False\<rparr>)
    \<and> cachedBlocks s4 10 = Some [\<lparr>Header = hA, Block = bA, Orphaned = False\<rparr>,
                                 \<lparr>Header = hB, Block = bB, Orphaned = True\<rparr>]
    \<and> cachedBlocks s4 11 = Some [\<lparr>Header = hC, Block = bC, Orphaned = True\<rparr>]
    \<and> cachedBlocks s4 12 = Some [\<lparr>Header = hD, Block = bD, Orphaned = False\<rparr>]"
proof -
  have d': "Root hA \<noteq> Root (Header g)" "Root hB \<noteq> Root (Header g)"
    "Root hC \<noteq> Root (Header g)" "Root hD \<noteq> Root (Header g)"
    "Root hB \<noteq> Root hA" "Root hC \<noteq> Root hA" "Root hD \<noteq> Root hA"
    "Root hC \<noteq> Root hB" "Root hD \<noteq> Root hB" "Root hD \<noteq> Root hC"
    using d by auto
  show ?thesis
  proof (cases "lowestCachedSlot s = 0")
    case True
    show ?thesis
      using g hd e p d d' True by (simp add: head_defs walk_steps)
  next
    case False
    have l: "lowestCachedSlot s \<le> 10" "lowestCachedSlot s \<le> 11" "lowestCachedSlot s \<le> 12"
      "\<not> 10 < lowestCachedSlot s" "\<not> 11 < lowestCachedSlot s" "\<not> 12 < lowestCachedSlot s"
      using lcs by (auto simp: word_le_nat_alt word_less_nat_alt)
    show ?thesis
      using g hd e p d d' False l lcs by (simp add: head_defs walk_steps)
  qed
qed

text \<open>The scenario on the cache that holds the single block with root \<open>[9]\<close> at slot 9.\<close>

theorem one_slot_reorg_then_recanonicalize_witness:
  "\<exists>s1 s2 s3 s4.
      processHeadBlock
        (NewIndexerState\<lparr>cachedBlocks :=
            [9 \<mapsto> [\<lparr>Header = \<lparr>Root = [9], Slot = 9, ParentRoot = [8]\<rparr>, Block = 0,
                      Orphaned = False\<rparr>]],
           lastHeadRoot := Some [9], lastHeadBlock := 9, lowestCachedSlot := 9\<rparr>)
        10 \<lparr>Root = [10], Slot = 10, ParentRoot = [9]\<rparr> 1
        = Some (s1, Some \<lparr>Header = \<lparr>Root = [10], Slot = 10, ParentRoot = [9]\<rparr>, Block = 1,
                          Orphaned = False\<rparr>)
    \<and> processHeadBlock s1 10 \<lparr>Root = [11], Slot = 10, ParentRoot = [9]\<rparr> 2
        = Some (s2, Some \<lparr>Header = \<lparr>Root = [11], Slot = 10, ParentRoot = [9]\<rparr>, Block = 2,
                          Orphaned = False\<rparr>)
    \<and> processHeadBlock s2 11 \<lparr>Root = [12], Slot = 11, ParentRoot = [11]\<rparr> 3
        = Some (s3, Some \<lparr>Header = \<lparr>Root = [12], Slot = 11, ParentRoot = [11]\<rparr>, Block = 3,
                          Orphaned = False\<rparr>)
    \<and> cachedBlocks s3 10
        = Some [\<lparr>Header = \<lparr>Root = [10], Slot = 10, ParentRoot = [9]\<rparr>, Block = 1,
                 Orphaned = True\<rparr>,
                \<lparr>Header = \<lparr>Root = [11], Slot = 10, ParentRoot = [9]\<rparr>, Block = 2,
                 Orphaned = False\<rparr>]
    \<and> cachedBlocks s3 11
        = Some [\<lparr>Header = \<lparr>Root = [12], Slot = 11, ParentRoot = [11]\<rparr>, Block = 3,
                 Orphaned = False\<rparr>]
    \<and> processHeadBlock s3 12 \<lparr>Root = [13], Slot = 12, ParentRoot = [10]\<rparr> 4
        = Some (s4, Some \<lparr>Header = \<lparr>Root = [13], Slot = 12, ParentRoot = [10]\<rparr>, Block = 4,
                          Orphaned = False\<rparr>)
    \<and> cachedBlocks s4 10
        = Some [\<lparr>Header = \<lparr>Root = [10], Slot = 10, ParentRoot = [9]\<rparr>, Block = 1,
                 Orphaned = False\<rparr>,
                \<lparr>Header = \<lparr>Root = [11], Slot = 10, ParentRoot = [9]\<rparr>, Block = 2,
                 Orphaned = True\<rparr>]
    \<and> cachedBlocks s4 11
        = Some [\<lparr>Header = \<lparr>Root = [12], Slot = 11, ParentRoot = [11]\<rparr>, Block = 3,
                 Orphaned = True\<rparr>]
    \<and> cachedBlocks s4 12
        = Some [\<lparr>Header = \<lparr>Root = [13], Slot = 12, ParentRoot = [10]\<rparr>, Block = 4,
                 Orphaned = False\<rparr>]"
  by (rule one_slot_reorg_then_recanonicalize
        [where g = "\<lparr>Header = \<lparr>Root = [9], Slot = 9, ParentRoot = [8]\<rparr>, Block = 0,
                     Orphaned = False\<rparr>"])
     (simp_all add: NewIndexerState_def)

section \<open>The walks keep every header in place\<close>

lemma cacheHeaders_upd:
  "cb k = Some bs \<Longrightarrow> map Header bs' = map Header bs
    \<Longrightarrow> cacheHeaders (cb(k \<mapsto> bs')) = cacheHeaders cb"
  by (auto simp: cacheHeaders_def fun_eq_iff)

lemma reorgScan_headers: "map Header (fst (reorgScan h sidx bidx bs base)) = map Header bs"
  by (induction bs arbitrary: bidx base) (simp_all add: case_prod_beta)

lemma recanonScan_headers: "map Header (fst (recanonScan sidx bidx bs ob found)) = map Header bs"
  by (induction bs arbitrary: bidx ob found) (simp_all add: case_prod_beta)

lemma setOrphanedAt_headers: "cacheHeaders (setOrphanedAt cb slot idx v) = cacheHeaders cb"
proof (cases "cb slot")
  case None
  then show ?thesis by (simp add: setOrphanedAt_def)
next
  case (Some bs)
  have "map Header (bs[idx := (bs ! idx)\<lparr>Orphaned := v\<rparr>]) = map Header bs"
    by (cases "idx < length bs") (simp_all add: list_eq_iff_nth_eq nth_list_update)
  with Some show ?thesis by (simp add: setOrphanedAt_def cacheHeaders_upd)
qed

lemma reorgBaseLoop_headers:
  assumes "reorgBaseLoop cb lcs h sidx = Some r"
  shows "cacheHeaders (fst r) = cacheHeaders cb"
proof (rule reorgBaseLoop.raw_induct
    [where P = "\<lambda>cb lcs h sidx r. cacheHeaders (fst r) = cacheHeaders cb", OF _ assms], goal_cases)
  case (1 f cb lcs h sidx r)
  show ?case
  proof (cases "lcs \<le> sidx")
    case False
    with 1(2) show ?thesis by auto
  next
    case True
    show ?thesis
    proof (cases "cb sidx")
      case None
      with True 1(2) have "f cb lcs h (sidx - 1) = Some r" by simp
      then show ?thesis by (rule 1(1))
    next
      case (Some blocks)
      let ?sc = "reorgScan h sidx 0 blocks None"
      have u: "cacheHeaders (cb(sidx \<mapsto> fst ?sc)) = cacheHeaders cb"
        using Some by (simp add: cacheHeaders_upd reorgScan_headers)
      show ?thesis
      proof (cases "snd ?sc")
        case None
        with True Some 1(2) have "f (cb(sidx \<mapsto> fst ?sc)) lcs h (sidx - 1) = Some r"
          by (simp add: case_prod_beta)
        then have "cacheHeaders (fst r) = cacheHeaders (cb(sidx \<mapsto> fst ?sc))" by (rule 1(1))
        with u show ?thesis by simp
      next
        case (Some p)
        with True \<open>cb sidx = Some blocks\<close> 1(2) have "r = (cb(sidx \<mapsto> fst ?sc), Some p)"
          by (auto simp add: case_prod_beta)
        with u show ?thesis by simp
      qed
    qed
  qed
qed

lemma recanonWalk_headers:
  assumes "recanonWalk cb lcs sidx ob = Some r"
  shows "cacheHeaders (fst r) = cacheHeaders cb"
proof (rule recanonWalk.raw_induct
    [where P = "\<lambda>cb lcs sidx ob r. cacheHeaders (fst r) = cacheHeaders cb", OF _ assms], goal_cases)
  case (1 f cb lcs sidx ob r)
  show ?case
  proof (cases "lcs \<le> sidx")
    case False
    with 1(2) show ?thesis by auto
  next
    case True
    show ?thesis
    proof (cases "cb sidx")
      case None
      with True 1(2) have "f cb lcs (sidx - 1) ob = Some r" by simp
      then show ?thesis by (rule 1(1))
    next
      case (Some blocks)
      let ?sc = "recanonScan sidx 0 blocks ob False"
      have u: "cacheHeaders (cb(sidx \<mapsto> fst ?sc)) = cacheHeaders cb"
        using Some by (simp add: cacheHeaders_upd recanonScan_headers)
      show ?thesis
      proof (cases "snd (snd ?sc)")
        case False
        with True Some 1(2)
        have "f (cb(sidx \<mapsto> fst ?sc)) lcs (sidx - 1) (fst (snd ?sc)) = Some r"
          by (simp add: case_prod_beta)
        then have "cacheHeaders (fst r) = cacheHeaders (cb(sidx \<mapsto> fst ?sc))" by (rule 1(1))
        with u show ?thesis by simp
      next
        case t: True
        with True Some 1(2) have "fst r = cb(sidx \<mapsto> fst ?sc)"
          by (auto simp add: case_prod_beta)
        with u show ?thesis by simp
      qed
    qed
  qed
qed

lemma recanonLoop_headers:
  assumes "recanonLoop cb lcs bslot ob rs = Some r"
  shows "cacheHeaders (fst r) = cacheHeaders cb"
proof (rule recanonLoop.raw_induct
    [where P = "\<lambda>cb lcs bslot ob rs r. cacheHeaders (fst r) = cacheHeaders cb", OF _ assms],
    goal_cases)
  case (1 f cb lcs bslot ob rs r)
  show ?case
  proof (cases "orphanedAt cb (fst (snd ob)) (snd (snd ob))")
    case False
    with 1(2) show ?thesis by auto
  next
    case True
    let ?cb1 = "setOrphanedAt cb (fst (snd ob)) (snd (snd ob)) False"
    from True 1(2) obtain w where
      w: "recanonWalk ?cb1 lcs (bslot - 1) ob = Some w"
      and f: "f (fst w) lcs bslot (fst (snd w)) (if \<not> snd (snd w) then True else rs) = Some r"
      by (auto simp: bind_eq_Some_conv)
    from f have "cacheHeaders (fst r) = cacheHeaders (fst w)" by (rule 1(1))
    also have "\<dots> = cacheHeaders ?cb1" using w by (rule recanonWalk_headers)
    also have "\<dots> = cacheHeaders cb" by (rule setOrphanedAt_headers)
    finally show ?thesis .
  qed
qed

lemma reorgResolve_headers:
  assumes "reorgResolve cb lcs h slot = Some r"
  shows "cacheHeaders (fst r) = cacheHeaders cb"
proof -
  from assms obtain w where w: "reorgBaseLoop cb lcs h slot = Some w"
    and k: "(case snd w of
               None \<Rightarrow> Some (fst w, True)
             | Some (bslot, bidx) \<Rightarrow>
                 (case headerAt (fst w) bslot bidx of
                    None \<Rightarrow> Some (fst w, True)
                  | Some bh \<Rightarrow> recanonLoop (fst w) lcs bslot (bh, bslot, bidx) False)) = Some r"
    by (auto simp: reorgResolve_def bind_eq_Some_conv)
  have a: "cacheHeaders (fst w) = cacheHeaders cb" using w by (rule reorgBaseLoop_headers)
  have "cacheHeaders (fst r) = cacheHeaders (fst w)"
    using k by (auto split: option.splits dest: recanonLoop_headers)
  with a show ?thesis by simp
qed

lemma hasRoot_headers: "hasRoot r bs = (r \<in> Root ` set (map Header bs))"
  by (induction bs) auto

lemma hasRoot_cacheHeaders:
  assumes "cacheHeaders cb' = cacheHeaders cb"
  shows "(case cb' slot of None \<Rightarrow> False | Some blocks \<Rightarrow> hasRoot r blocks) =
   (case cb slot of None \<Rightarrow> False | Some blocks \<Rightarrow> hasRoot r blocks)"
proof -
  from assms have "map_option (map Header) (cb' slot) = map_option (map Header) (cb slot)"
    by (simp add: cacheHeaders_def fun_eq_iff)
  then show ?thesis
    by (cases "cb' slot"; cases "cb slot") (simp_all add: hasRoot_headers)
qed

lemma processHeadBlock_cached:
  assumes "processHeadBlock s slot h blk = Some (s1, r)"
  shows "(case cachedBlocks s1 slot of None \<Rightarrow> False | Some blocks \<Rightarrow> hasRoot (Root h) blocks)"
proof (cases "case cachedBlocks s slot of None \<Rightarrow> False | Some blocks \<Rightarrow> hasRoot (Root h) blocks")
  case True
  with assms show ?thesis by (simp add: processHeadBlock_def)
next
  case False
  define bi where "bi = \<lparr>Header = h, Block = blk, Orphaned = False\<rparr>"
  define cb1 where "cb1 = (case cachedBlocks s slot of
                      None \<Rightarrow> (cachedBlocks s)(slot \<mapsto> [bi])
                    | Some blocks \<Rightarrow> (cachedBlocks s)(slot \<mapsto> blocks @ [bi]))"
  define lcs1 where "lcs1 = (if lowestCachedSlot s = 0 \<or> slot < lowestCachedSlot s then slot
                     else lowestCachedSlot s)"
  have c1: "(case cb1 slot of None \<Rightarrow> False | Some blocks \<Rightarrow> hasRoot (Root h) blocks)"
    by (simp add: cb1_def bi_def hasRoot_headers split: option.splits)
  from False assms obtain w where
    w: "(case lastHeadRoot s of None \<Rightarrow> Some (cb1, False)
         | Some lr \<Rightarrow> if lr \<noteq> ParentRoot h then reorgResolve cb1 lcs1 h slot
                      else Some (cb1, False)) = Some w"
    and s1: "cachedBlocks s1 = fst w"
    unfolding processHeadBlock_def Let_def cb1_def bi_def lcs1_def
    by (auto simp: bind_eq_Some_conv)
  from w have "cacheHeaders (fst w) = cacheHeaders cb1"
    by (auto split: option.splits if_splits dest: reorgResolve_headers)
  from hasRoot_cacheHeaders[OF this] c1 s1 show ?thesis by simp
qed

text \<open>
  C4. After an insert that returned, inserting the same slot, header and body again
  returns nil and leaves the state as the first insert left it: the root is found among
  the entries of the slot, and nothing is appended.
\<close>

theorem duplicate_insert_is_skipped:
  assumes "processHeadBlock s slot h blk = Some (s1, r)"
  shows "processHeadBlock s1 slot h blk = Some (s1, None)"
  using processHeadBlock_cached[OF assms] by (simp add: processHeadBlock_def)

text \<open>A second block at slot 10, which orphans the first: its repetition is skipped.\<close>

theorem duplicate_insert_is_skipped_witness:
  "\<exists>s1. processHeadBlock
           (NewIndexerState\<lparr>cachedBlocks :=
              [9 \<mapsto> [\<lparr>Header = \<lparr>Root = [9], Slot = 9, ParentRoot = [8]\<rparr>, Block = 0,
                        Orphaned = False\<rparr>],
               10 \<mapsto> [\<lparr>Header = \<lparr>Root = [10], Slot = 10, ParentRoot = [9]\<rparr>, Block = 1,
                         Orphaned = False\<rparr>]],
              lastHeadRoot := Some [10], lastHeadBlock := 10, lowestCachedSlot := 9\<rparr>)
           10 \<lparr>Root = [11], Slot = 10, ParentRoot = [9]\<rparr> 2
         = Some (s1, Some \<lparr>Header = \<lparr>Root = [11], Slot = 10, ParentRoot = [9]\<rparr>, Block = 2,
                           Orphaned = False\<rparr>)
      \<and> cachedBlocks s1 10
          = Some [\<lparr>Header = \<lparr>Root = [10], Slot = 10, ParentRoot = [9]\<rparr>, Block = 1,
                   Orphaned = True\<rparr>,
                  \<lparr>Header = \<lparr>Root = [11], Slot = 10, ParentRoot = [9]\<rparr>, Block = 2,
                   Orphaned = False\<rparr>]
      \<and> processHeadBlock s1 10 \<lparr>Root = [11], Slot = 10, ParentRoot = [9]\<rparr> 2 = Some (s1, None)"
proof -
  let ?s = "NewIndexerState\<lparr>cachedBlocks :=
              [9 \<mapsto> [\<lparr>Header = \<lparr>Root = [9], Slot = 9, ParentRoot = [8]\<rparr>, Block = 0,
                        Orphaned = False\<rparr>],
               10 \<mapsto> [\<lparr>Header = \<lparr>Root = [10], Slot = 10, ParentRoot = [9]\<rparr>, Block = 1,
                         Orphaned = False\<rparr>]],
              lastHeadRoot := Some [10], lastHeadBlock := 10, lowestCachedSlot := 9\<rparr>"
  let ?h = "\<lparr>Root = [11], Slot = 10, ParentRoot = [9]\<rparr>"
  have "\<exists>s1. processHeadBlock ?s 10 ?h 2
               = Some (s1, Some \<lparr>Header = ?h, Block = 2, Orphaned = False\<rparr>)
          \<and> cachedBlocks s1 10
              = Some [\<lparr>Header = \<lparr>Root = [10], Slot = 10, ParentRoot = [9]\<rparr>, Block = 1,
                       Orphaned = True\<rparr>,
                      \<lparr>Header = ?h, Block = 2, Orphaned = False\<rparr>]"
    by (simp add: head_defs walk_steps NewIndexerState_def)
  then obtain s1 where
    a: "processHeadBlock ?s 10 ?h 2 = Some (s1, Some \<lparr>Header = ?h, Block = 2, Orphaned = False\<rparr>)"
    and b: "cachedBlocks s1 10
              = Some [\<lparr>Header = \<lparr>Root = [10], Slot = 10, ParentRoot = [9]\<rparr>, Block = 1,
                       Orphaned = True\<rparr>,
                      \<lparr>Header = ?h, Block = 2, Orphaned = False\<rparr>]"
    by blast
  from duplicate_insert_is_skipped[OF a] a b show ?thesis by blast
qed

section \<open>Termination of the backward walks\<close>

lemma ex_cached_header:
  "(\<exists>sidx blocks b. cb sidx = Some blocks \<and> b \<in> set blocks \<and> P (Header b)) =
   (\<exists>sidx hs x. cacheHeaders cb sidx = Some hs \<and> x \<in> set hs \<and> P x)" (is "?L = ?R")
proof
  assume ?L
  then obtain sidx blocks b where a: "cb sidx = Some blocks" "b \<in> set blocks" "P (Header b)"
    by blast
  then have "cacheHeaders cb sidx = Some (map Header blocks)" "Header b \<in> set (map Header blocks)"
    by (auto simp: cacheHeaders_def)
  with a(3) show ?R by blast
next
  assume ?R
  then obtain sidx hs x where a: "cacheHeaders cb sidx = Some hs" "x \<in> set hs" "P x" by blast
  from a(1) obtain blocks where b: "cb sidx = Some blocks" "hs = map Header blocks"
    by (auto simp: cacheHeaders_def)
  with a(2) obtain b where "b \<in> set blocks" "x = Header b" by auto
  with a(3) b(1) show ?L by blast
qed

lemma parentCached_alt:
  "parentCached h cb =
     (\<exists>sidx hs x. cacheHeaders cb sidx = Some hs \<and> x \<in> set hs
        \<and> (Root x \<noteq> Root h \<and> Root x = ParentRoot h))"
  unfolding parentCached_def
  by (rule ex_cached_header [where P = "\<lambda>x. Root x \<noteq> Root h \<and> Root x = ParentRoot h"])

lemma rootCached_alt:
  "rootCached r cb = (\<exists>sidx hs x. cacheHeaders cb sidx = Some hs \<and> x \<in> set hs \<and> Root x = r)"
  unfolding rootCached_def by (rule ex_cached_header [where P = "\<lambda>x. Root x = r"])

lemma reorgScan_no_base:
  "\<forall>b\<in>set bs. Root (Header b) = Root h \<or> Root (Header b) \<noteq> ParentRoot h
    \<Longrightarrow> snd (reorgScan h sidx bidx bs base) = base"
  by (induction bs arbitrary: bidx base) (auto simp: case_prod_beta)

lemma recanonScan_no_match:
  "\<forall>b\<in>set bs. Root (Header b) \<noteq> ParentRoot (fst ob)
    \<Longrightarrow> snd (recanonScan sidx bidx bs ob found) = (ob, found)"
  by (induction bs arbitrary: bidx found) (simp_all add: case_prod_beta)

lemma unat_pred: "lcs \<le> sidx \<Longrightarrow> 1 \<le> lcs \<Longrightarrow> unat (sidx - 1) < unat (sidx :: u64)"
proof -
  assume a: "lcs \<le> sidx" "1 \<le> lcs"
  then have o: "1 \<le> sidx" by simp
  then have "unat (sidx - 1) = unat sidx - unat (1 :: u64)" by (rule unat_sub)
  moreover have "unat (1 :: u64) \<le> unat sidx" using o by (simp only: word_le_nat_alt)
  ultimately show ?thesis by simp
qed

lemma reorgBaseLoop_returns:
  assumes "1 \<le> lcs"
  shows "reorgBaseLoop cb lcs h sidx \<noteq> None"
proof (induction "unat sidx" arbitrary: sidx cb rule: less_induct)
  case less
  show ?case
  proof (cases "lcs \<le> sidx")
    case False
    then show ?thesis by (simp add: reorgBaseLoop_stop)
  next
    case True
    then have d: "unat (sidx - 1) < unat sidx" using assms by (rule unat_pred)
    show ?thesis
    proof (cases "cb sidx")
      case None
      with True less(1)[OF d, of cb] show ?thesis by (simp add: reorgBaseLoop_skip)
    next
      case (Some blocks)
      with True less(1)[OF d, of "cb(sidx \<mapsto> fst (reorgScan h sidx 0 blocks None))"]
      show ?thesis by (simp add: reorgBaseLoop_scan split: option.splits)
    qed
  qed
qed

lemma recanonWalk_returns:
  assumes "1 \<le> lcs"
  shows "recanonWalk cb lcs sidx ob \<noteq> None"
proof (induction "unat sidx" arbitrary: sidx cb ob rule: less_induct)
  case less
  show ?case
  proof (cases "lcs \<le> sidx")
    case False
    then show ?thesis by (simp add: recanonWalk_stop)
  next
    case True
    then have d: "unat (sidx - 1) < unat sidx" using assms by (rule unat_pred)
    show ?thesis
    proof (cases "cb sidx")
      case None
      with True less(1)[OF d, of cb ob] show ?thesis by (simp add: recanonWalk_skip)
    next
      case (Some blocks)
      let ?sc = "recanonScan sidx 0 blocks ob False"
      note e = recanonWalk_scan[of lcs sidx cb blocks ob, OF True Some]
      show ?thesis
      proof (cases "snd (snd ?sc)")
        case t: True
        have "recanonWalk cb lcs sidx ob = Some (cb(sidx \<mapsto> fst ?sc), fst (snd ?sc), True)"
          unfolding e using t by (simp only: if_True)
        then show ?thesis by (simp only: option.distinct not_False_eq_True)
      next
        case f: False
        have "recanonWalk cb lcs sidx ob
                = recanonWalk (cb(sidx \<mapsto> fst ?sc)) lcs (sidx - 1) (fst (snd ?sc))"
          unfolding e using f by (simp only: if_False)
        with less(1)[OF d, of "cb(sidx \<mapsto> fst ?sc)" "fst (snd ?sc)"]
        show ?thesis by metis
      qed
    qed
  qed
qed

lemma reorgBaseLoop_never:
  assumes "reorgBaseLoop cb lcs h sidx = Some r"
  shows "lcs = 0 \<and> \<not> parentCached h cb \<longrightarrow> False"
proof (rule reorgBaseLoop.raw_induct
    [where P = "\<lambda>cb lcs h sidx r. lcs = 0 \<and> \<not> parentCached h cb \<longrightarrow> False", OF _ assms],
    goal_cases)
  case (1 f cb lcs h sidx r)
  show ?case
  proof
    assume a: "lcs = 0 \<and> \<not> parentCached h cb"
    have le: "lcs \<le> sidx" using a by simp
    show False
    proof (cases "cb sidx")
      case None
      with le 1(2) have "f cb lcs h (sidx - 1) = Some r" by simp
      from 1(1)[OF this] a show ?thesis by simp
    next
      case (Some blocks)
      let ?sc = "reorgScan h sidx 0 blocks None"
      have "\<forall>b\<in>set blocks. Root (Header b) = Root h \<or> Root (Header b) \<noteq> ParentRoot h"
        using a Some unfolding parentCached_def by blast
      then have n: "snd ?sc = None" by (rule reorgScan_no_base)
      have "cacheHeaders (cb(sidx \<mapsto> fst ?sc)) = cacheHeaders cb"
        using Some by (simp add: cacheHeaders_upd reorgScan_headers)
      then have p: "\<not> parentCached h (cb(sidx \<mapsto> fst ?sc))"
        using a by (simp add: parentCached_alt)
      from le Some n 1(2) have "f (cb(sidx \<mapsto> fst ?sc)) lcs h (sidx - 1) = Some r"
        by (simp add: case_prod_beta)
      from 1(1)[OF this] a p show ?thesis by simp
    qed
  qed
qed

lemma recanonWalk_never:
  assumes "recanonWalk cb lcs sidx ob = Some r"
  shows "lcs = 0 \<and> \<not> rootCached (ParentRoot (fst ob)) cb \<longrightarrow> False"
proof (rule recanonWalk.raw_induct
    [where P = "\<lambda>cb lcs sidx ob r. lcs = 0 \<and> \<not> rootCached (ParentRoot (fst ob)) cb \<longrightarrow> False",
      OF _ assms], goal_cases)
  case (1 f cb lcs sidx ob r)
  show ?case
  proof
    assume a: "lcs = 0 \<and> \<not> rootCached (ParentRoot (fst ob)) cb"
    have le: "lcs \<le> sidx" using a by simp
    show False
    proof (cases "cb sidx")
      case None
      with le 1(2) have "f cb lcs (sidx - 1) ob = Some r" by simp
      from 1(1)[OF this] a show ?thesis by simp
    next
      case (Some blocks)
      let ?sc = "recanonScan sidx 0 blocks ob False"
      have "\<forall>b\<in>set blocks. Root (Header b) \<noteq> ParentRoot (fst ob)"
        using a Some unfolding rootCached_def by blast
      then have n: "snd ?sc = (ob, False)" by (rule recanonScan_no_match)
      have "cacheHeaders (cb(sidx \<mapsto> fst ?sc)) = cacheHeaders cb"
        using Some by (simp add: cacheHeaders_upd recanonScan_headers)
      then have p: "\<not> rootCached (ParentRoot (fst ob)) (cb(sidx \<mapsto> fst ?sc))"
        using a by (simp add: rootCached_alt)
      from le Some n 1(2) have "f (cb(sidx \<mapsto> fst ?sc)) lcs (sidx - 1) ob = Some r"
        by (simp add: case_prod_beta)
      from 1(1)[OF this] a p show ?thesis by simp
    qed
  qed
qed

text \<open>
  C9. The reorg-base search and the re-canonicalization walk count a \<open>uint64\<close> slot
  index down while it is at least \<open>lowestCachedSlot\<close>. With \<open>lowestCachedSlot\<close> at
  least 1 each of them returns, from every cache and every start. With
  \<open>lowestCachedSlot = 0\<close> the condition holds at every index and the step from 0 goes to
  \<open>2^64 - 1\<close>: when no cached block carries the root looked for, neither walk returns.
\<close>

theorem backward_walks_return_iff_bounded:
  "(1 \<le> lcs \<longrightarrow>
      (\<exists>r. reorgBaseLoop cb lcs h sidx = Some r) \<and> (\<exists>r. recanonWalk cb lcs sidx ob = Some r))
   \<and> (\<not> parentCached h cb \<longrightarrow> reorgBaseLoop cb 0 h sidx = None)
   \<and> (\<not> rootCached (ParentRoot (fst ob)) cb \<longrightarrow> recanonWalk cb 0 sidx ob = None)
   \<and> (cb 0 = None \<longrightarrow>
        reorgBaseLoop cb 0 h 0 = reorgBaseLoop cb 0 h 18446744073709551615
        \<and> recanonWalk cb 0 0 ob = recanonWalk cb 0 18446744073709551615 ob)"
proof (intro conjI impI)
  assume "1 \<le> lcs"
  then show "\<exists>r. reorgBaseLoop cb lcs h sidx = Some r"
    using reorgBaseLoop_returns[of lcs cb h sidx] by blast
next
  assume "1 \<le> lcs"
  then show "\<exists>r. recanonWalk cb lcs sidx ob = Some r"
    using recanonWalk_returns[of lcs cb sidx ob] by blast
next
  assume "\<not> parentCached h cb"
  then show "reorgBaseLoop cb 0 h sidx = None"
    using reorgBaseLoop_never[of cb 0 h sidx] by (cases "reorgBaseLoop cb 0 h sidx") auto
next
  assume "\<not> rootCached (ParentRoot (fst ob)) cb"
  then show "recanonWalk cb 0 sidx ob = None"
    using recanonWalk_never[of cb 0 sidx ob] by (cases "recanonWalk cb 0 sidx ob") auto
next
  have m: "(0::u64) - 1 = 18446744073709551615" by simp
  assume c: "cb 0 = None"
  show "reorgBaseLoop cb 0 h 0 = reorgBaseLoop cb 0 h 18446744073709551615"
    using reorgBaseLoop_skip[of 0 0 cb h, OF _ c] unfolding m by simp
  show "recanonWalk cb 0 0 ob = recanonWalk cb 0 18446744073709551615 ob"
    using recanonWalk_skip[of 0 0 cb ob, OF _ c] unfolding m by simp
qed

text \<open>One orphan-to-be at slot 5, looked at from slot 7, with watermark 1 and with 0.\<close>

theorem backward_walks_return_iff_bounded_witness:
  "(\<exists>r. reorgBaseLoop
           [5 \<mapsto> [\<lparr>Header = \<lparr>Root = [5], Slot = 5, ParentRoot = [4]\<rparr>, Block = 0,
                     Orphaned = False\<rparr>]]
           1 \<lparr>Root = [7], Slot = 7, ParentRoot = [6]\<rparr> 7 = Some r)
   \<and> (\<exists>r. recanonWalk
           [5 \<mapsto> [\<lparr>Header = \<lparr>Root = [5], Slot = 5, ParentRoot = [4]\<rparr>, Block = 0,
                     Orphaned = False\<rparr>]]
           1 7 (\<lparr>Root = [7], Slot = 7, ParentRoot = [6]\<rparr>, 7, 0) = Some r)
   \<and> reorgBaseLoop
        [5 \<mapsto> [\<lparr>Header = \<lparr>Root = [5], Slot = 5, ParentRoot = [4]\<rparr>, Block = 0,
                  Orphaned = False\<rparr>]]
        0 \<lparr>Root = [7], Slot = 7, ParentRoot = [6]\<rparr> 7 = None
   \<and> recanonWalk
        [5 \<mapsto> [\<lparr>Header = \<lparr>Root = [5], Slot = 5, ParentRoot = [4]\<rparr>, Block = 0,
                  Orphaned = False\<rparr>]]
        0 7 (\<lparr>Root = [7], Slot = 7, ParentRoot = [6]\<rparr>, 7, 0) = None"
  using backward_walks_return_iff_bounded
    [of 1 "[5 \<mapsto> [\<lparr>Header = \<lparr>Root = [5], Slot = 5, ParentRoot = [4]\<rparr>, Block = 0,
                     Orphaned = False\<rparr>]]"
        "\<lparr>Root = [7], Slot = 7, ParentRoot = [6]\<rparr>" 7
        "(\<lparr>Root = [7], Slot = 7, ParentRoot = [6]\<rparr>, 7, 0)"]
  by (simp add: parentCached_def rootCached_def split: if_splits)

section \<open>The epoch target is the first canonical block of the epoch\<close>

lemmas example_defs =
  exampleChain_def exampleIndexer_def dbOk_def dbCommitFails_def exampleStats_def
  readyValidators_def exampleBlock_def NewIndexerState_def

lemma firstCanonical_find: "firstCanonical bs = List.find (\<lambda>b. \<not> Orphaned b) bs"
  by (induction bs) auto

lemma unat_succ_below:
  fixes slot lastSlot :: u64
  assumes "slot \<le> lastSlot" "lastSlot \<noteq> - 1"
  shows "unat (slot + 1) = Suc (unat slot)"
proof -
  have "unat lastSlot < 2 ^ 64" using unsigned_less[of lastSlot] by simp
  moreover have "unat lastSlot \<noteq> 2 ^ 64 - 1"
  proof
    assume "unat lastSlot = 2 ^ 64 - 1"
    moreover have "word_of_nat (unat lastSlot) = lastSlot" by simp
    ultimately have "lastSlot = word_of_nat (2 ^ 64 - 1)" by simp
    then show False using assms(2) by simp
  qed
  moreover have "unat slot \<le> unat lastSlot" using assms(1) by (simp add: word_le_nat_alt)
  ultimately have "unat slot + 1 < 2 ^ 64" by simp
  then show ?thesis by (simp add: unat_word_ariths)
qed

lemma slotRange_Cons:
  assumes "slot \<le> lastSlot" "lastSlot \<noteq> - 1"
  shows "slotRange slot lastSlot = slot # slotRange (slot + 1) lastSlot"
proof -
  have "unat slot < Suc (unat lastSlot)" using assms(1) by (simp add: word_le_nat_alt)
  then have "[unat slot ..< Suc (unat lastSlot)] = unat slot # [Suc (unat slot) ..< Suc (unat lastSlot)]"
    by (rule upt_conv_Cons)
  then show ?thesis
    by (simp add: slotRange_def unat_succ_below[OF assms])
qed

lemma slotRange_Nil: "\<not> slot \<le> lastSlot \<Longrightarrow> slotRange slot lastSlot = []"
  by (simp add: slotRange_def word_le_nat_alt)

lemma epochTargetLoop_spec:
  assumes "lastSlot \<noteq> - 1"
  shows "epochTargetLoop cb firstSlot lastSlot slot =
     Some (case firstCanonicalIn cb (slotRange slot lastSlot) of
        None \<Rightarrow> None
      | Some (s, b) \<Rightarrow>
          Some (if s = firstSlot then Root (Header b) else ParentRoot (Header b)))"
proof (induction "Suc (unat lastSlot) - unat slot" arbitrary: slot rule: less_induct)
  case less
  show ?case
  proof (cases "slot \<le> lastSlot")
    case False
    then show ?thesis
      by (subst epochTargetLoop.simps) (simp add: slotRange_Nil)
  next
    case True
    have u: "unat (slot + 1) = Suc (unat slot)" using True assms by (rule unat_succ_below)
    have "unat slot \<le> unat lastSlot" using True by (simp add: word_le_nat_alt)
    with u have d: "Suc (unat lastSlot) - unat (slot + 1) < Suc (unat lastSlot) - unat slot"
      by simp
    note ih = less(1)[OF d]
    show ?thesis
      by (subst epochTargetLoop.simps)
         (simp add: True slotRange_Cons[OF True assms] ih firstCanonical_find
            split: option.splits)
  qed
qed

lemma firstBlockLoop_spec:
  assumes "lastSlot \<noteq> - 1"
  shows "firstBlockLoop cb lastSlot slot =
     Some (map_option snd (firstCanonicalIn cb (slotRange slot lastSlot)))"
proof (induction "Suc (unat lastSlot) - unat slot" arbitrary: slot rule: less_induct)
  case less
  show ?case
  proof (cases "slot \<le> lastSlot")
    case False
    then show ?thesis
      by (subst firstBlockLoop.simps) (simp add: slotRange_Nil)
  next
    case True
    have u: "unat (slot + 1) = Suc (unat slot)" using True assms by (rule unat_succ_below)
    have "unat slot \<le> unat lastSlot" using True by (simp add: word_le_nat_alt)
    with u have d: "Suc (unat lastSlot) - unat (slot + 1) < Suc (unat lastSlot) - unat slot"
      by simp
    note ih = less(1)[OF d]
    show ?thesis
      by (subst firstBlockLoop.simps)
         (simp add: True slotRange_Cons[OF True assms] ih firstCanonical_find
            split: option.splits)
  qed
qed

lemma firstCanonicalIn_cached:
  "firstCanonicalIn cb ss = Some (s, b) \<Longrightarrow> \<exists>blocks. cb s = Some blocks \<and> b \<in> set blocks"
  by (induction ss) (auto split: option.splits simp: find_Some_iff)

lemma epochTargetLoop_stop:
  "\<not> slot \<le> lastSlot \<Longrightarrow> epochTargetLoop cb firstSlot lastSlot slot = Some None"
  by (subst epochTargetLoop.simps) simp

lemma epochTargetLoop_skip:
  "slot \<le> lastSlot \<Longrightarrow> cb slot = None
    \<Longrightarrow> epochTargetLoop cb firstSlot lastSlot slot = epochTargetLoop cb firstSlot lastSlot (slot + 1)"
  by (subst epochTargetLoop.simps) simp

lemma epochTargetLoop_scan:
  "slot \<le> lastSlot \<Longrightarrow> cb slot = Some blocks \<Longrightarrow>
   epochTargetLoop cb firstSlot lastSlot slot =
     (case firstCanonical blocks of
        Some b \<Rightarrow> Some (Some (if slot = firstSlot then Root (Header b) else ParentRoot (Header b)))
      | None \<Rightarrow> epochTargetLoop cb firstSlot lastSlot (slot + 1))"
  by (subst epochTargetLoop.simps) simp

lemma firstBlockLoop_stop:
  "\<not> slot \<le> lastSlot \<Longrightarrow> firstBlockLoop cb lastSlot slot = Some None"
  by (subst firstBlockLoop.simps) simp

lemma firstBlockLoop_skip:
  "slot \<le> lastSlot \<Longrightarrow> cb slot = None
    \<Longrightarrow> firstBlockLoop cb lastSlot slot = firstBlockLoop cb lastSlot (slot + 1)"
  by (subst firstBlockLoop.simps) simp

lemma firstBlockLoop_scan:
  "slot \<le> lastSlot \<Longrightarrow> cb slot = Some blocks \<Longrightarrow>
   firstBlockLoop cb lastSlot slot =
     (case firstCanonical blocks of
        Some b \<Rightarrow> Some (Some b)
      | None \<Rightarrow> firstBlockLoop cb lastSlot (slot + 1))"
  by (subst firstBlockLoop.simps) simp

lemmas target_steps =
  epochTargetLoop_stop epochTargetLoop_skip epochTargetLoop_scan
  firstBlockLoop_stop firstBlockLoop_skip firstBlockLoop_scan

text \<open>
  C5, amended. For every epoch whose last slot \<open>lastSlot = epoch * slotsPerEpoch +
  slotsPerEpoch - 1\<close> (in \<open>uint64\<close>) is not \<open>2^64 - 1\<close>, and every cache: the slot loop of
  processEpoch returns, and its target is the one found by walking the slots
  \<open>firstSlot..lastSlot\<close> and taking the first non-orphaned block: the block's root when it
  sits at \<open>firstSlot\<close>, its parent root otherwise. When the epoch has no non-orphaned block
  processEpoch returns at the "no block found" log, before the aggregation; otherwise it
  goes on with that target. BuildLiveEpoch, which reads the slot from the block's header,
  computes the same target, and nil when there is none, on every cache that keeps each
  block under the slot of its header.
\<close>

theorem epoch_target_is_first_canonical_block:
  assumes "epoch * SlotsPerEpoch cfg + SlotsPerEpoch cfg - 1 \<noteq> - 1"
    and "epochStats s epoch = Some es"
    and "validatorsStore s (Validators es) = Some v" and "ValidatorsMutex v = Unlocked"
  shows "epochTargetLoop (cachedBlocks s) (epoch * SlotsPerEpoch cfg)
           (epoch * SlotsPerEpoch cfg + SlotsPerEpoch cfg - 1) (epoch * SlotsPerEpoch cfg)
         = Some (epochTarget_spec (cachedBlocks s) (epoch * SlotsPerEpoch cfg)
                   (epoch * SlotsPerEpoch cfg + SlotsPerEpoch cfg - 1))
    \<and> processEpoch cfg ix db s epoch
         = Some (Inr (case epochTarget_spec (cachedBlocks s) (epoch * SlotsPerEpoch cfg)
                             (epoch * SlotsPerEpoch cfg + SlotsPerEpoch cfg - 1) of
                        None \<Rightarrow> NoTargetBlock
                      | Some t \<Rightarrow>
                          if writeDb ix then
                            (if beginOk db then
                               (if commitOk db then EpochProcessed t else DbCommitFailed)
                             else DbBeginFailed)
                          else EpochProcessed t))
    \<and> (slotKeyed (cachedBlocks s) \<longrightarrow>
         BuildLiveEpoch cfg s epoch
           = Some (epochTarget_spec (cachedBlocks s) (epoch * SlotsPerEpoch cfg)
                     (epoch * SlotsPerEpoch cfg + SlotsPerEpoch cfg - 1)))"
proof -
  let ?f = "epoch * SlotsPerEpoch cfg"
  let ?l = "?f + SlotsPerEpoch cfg - 1"
  note t = epochTargetLoop_spec[OF assms(1), of "cachedBlocks s" ?f ?f]
  have a: "epochTargetLoop (cachedBlocks s) ?f ?l ?f = Some (epochTarget_spec (cachedBlocks s) ?f ?l)"
    by (simp add: t epochTarget_spec_def)
  have b: "processEpoch cfg ix db s epoch
         = Some (Inr (case epochTarget_spec (cachedBlocks s) ?f ?l of
                        None \<Rightarrow> NoTargetBlock
                      | Some t \<Rightarrow>
                          if writeDb ix then
                            (if beginOk db then
                               (if commitOk db then EpochProcessed t else DbCommitFailed)
                             else DbBeginFailed)
                          else EpochProcessed t))"
    using assms(2-4) by (simp add: processEpoch_def a split: option.splits)
  have c: "BuildLiveEpoch cfg s epoch = Some (epochTarget_spec (cachedBlocks s) ?f ?l)"
    if k: "slotKeyed (cachedBlocks s)"
  proof (cases "firstCanonicalIn (cachedBlocks s) (slotRange ?f ?l)")
    case None
    then show ?thesis
      using assms(2) by (simp add: BuildLiveEpoch_def firstBlockLoop_spec[OF assms(1)] epochTarget_spec_def)
  next
    case (Some p)
    obtain sl b where p: "p = (sl, b)" by (cases p)
    from firstCanonicalIn_cached[OF Some[unfolded p]] k have "Slot (Header b) = sl"
      unfolding slotKeyed_def by blast
    then show ?thesis
      using assms(2) Some p
      by (simp add: BuildLiveEpoch_def firstBlockLoop_spec[OF assms(1)] epochTarget_spec_def)
  qed
  from a b c show ?thesis by blast
qed

text \<open>The walk of epoch 1 passes the empty slot 32 and the orphaned block of slot 33.\<close>

lemma live_target:
  "epochTargetLoop (cachedBlocks liveState) 32 63 32 = Some (Some [5])"
  by (simp add: target_steps liveState_def NewIndexerState_def)

theorem epoch_target_is_first_canonical_block_witness:
  "epochTargetLoop (cachedBlocks liveState) 32 63 32 = Some (Some [5])
   \<and> epochTarget_spec (cachedBlocks liveState) 32 63 = Some [5]
   \<and> processEpoch exampleChain exampleIndexer dbOk liveState 1 = Some (Inr (EpochProcessed [5]))
   \<and> BuildLiveEpoch exampleChain liveState 1 = Some (Some [5])"
proof -
  have k: "slotKeyed (cachedBlocks liveState)"
    by (auto simp: slotKeyed_def liveState_def NewIndexerState_def split: if_splits)
  have n: "SlotsPerEpoch exampleChain = 32" by (simp add: exampleChain_def)
  have h: "(1 :: u64) * SlotsPerEpoch exampleChain + SlotsPerEpoch exampleChain - 1 \<noteq> - 1"
    unfolding n by simp
  have e: "epochStats liveState 1 = Some exampleStats"
    "validatorsStore liveState (Validators exampleStats) = Some readyValidators"
    "ValidatorsMutex readyValidators = Unlocked"
    by (simp_all add: liveState_def exampleStats_def readyValidators_def NewIndexerState_def)
  note t = epoch_target_is_first_canonical_block[OF h e, of exampleIndexer dbOk, simplified n, simplified]
  from t live_target have s: "epochTarget_spec (cachedBlocks liveState) 32 63 = Some [5]"
    by simp
  from t k show ?thesis
    unfolding s by (simp add: live_target exampleIndexer_def dbOk_def)
qed

text \<open>
  The slots of epoch \<open>2^59 - 1\<close> end at \<open>2^64 - 1\<close>: the condition \<open>slot <= lastSlot\<close>
  holds at every \<open>uint64\<close>, the increment wraps to 0, and the block cached at slot 0,
  outside the epoch, gives the target.
\<close>

lemma wrap_target:
  "epochTargetLoop [0 \<mapsto> [exampleBlock 0]] 18446744073709551584 18446744073709551615
     18446744073709551584 = Some (Some [0])"
  by (simp add: target_steps exampleBlock_def)

lemma wrap_first:
  "firstBlockLoop [0 \<mapsto> [exampleBlock 0]] 18446744073709551615 18446744073709551584
     = Some (Some (exampleBlock 0))"
  by (simp add: target_steps exampleBlock_def)

lemma slotRange_lower:
  assumes "x \<in> set (slotRange a b)"
  shows "a \<le> x"
proof -
  from assms obtain n where n: "unat a \<le> n" "n < Suc (unat b)" "x = word_of_nat n"
    by (auto simp: slotRange_def)
  have "unat b < 2 ^ 64" using unsigned_less[of b] by simp
  with n(2) have "n < 2 ^ 64" by simp
  then have "unat x = n" unfolding n(3) by (simp add: unat_of_nat)
  with n(1) show ?thesis by (simp add: word_le_nat_alt)
qed

lemma firstCanonicalIn_none:
  "\<forall>x\<in>set ss. cb x = None \<Longrightarrow> firstCanonicalIn cb ss = None"
  by (induction ss) simp_all

lemma wrap_spec:
  "epochTarget_spec [0 \<mapsto> [exampleBlock 0]] 18446744073709551584 18446744073709551615 = None"
proof -
  have "[0 \<mapsto> [exampleBlock 0]] x = None"
    if "x \<in> set (slotRange 18446744073709551584 18446744073709551615)" for x :: u64
  proof -
    from slotRange_lower[OF that] have "x \<noteq> 0" by auto
    then show ?thesis by simp
  qed
  then have "firstCanonicalIn [0 \<mapsto> [exampleBlock 0]]
               (slotRange 18446744073709551584 18446744073709551615) = None"
    by (intro firstCanonicalIn_none) blast
  then show ?thesis by (simp add: epochTarget_spec_def)
qed

lemma wrap_numbers:
  "cachedBlocks wrapState = [0 \<mapsto> [exampleBlock 0]]"
  "epochStats wrapState 18446744073709551615 = Some exampleStats"
  "epochStats wrapState 576460752303423487 = Some exampleStats"
  "validatorsStore wrapState (Validators exampleStats) = Some readyValidators"
  "ValidatorsMutex readyValidators = Unlocked"
  "lastHeadBlock wrapState = 0" "lastProcessedEpoch wrapState = 0"
  "(576460752303423487 :: u64) * SlotsPerEpoch exampleChain = 18446744073709551584"
  "(18446744073709551615 :: u64) * SlotsPerEpoch exampleChain = 18446744073709551584"
  "(18446744073709551584 :: u64) + SlotsPerEpoch exampleChain - 1 = 18446744073709551615"
  by (simp_all add: wrapState_def exampleStats_def readyValidators_def NewIndexerState_def
        exampleChain_def)

lemma wrap_processEpoch:
  "processEpoch exampleChain (exampleIndexer\<lparr>writeDb := False\<rparr>) dbOk wrapState 576460752303423487
     = Some (Inr (EpochProcessed [0]))"
  "processEpoch exampleChain exampleIndexer dbOk wrapState 18446744073709551615
     = Some (Inr (EpochProcessed [0]))"
  by (simp_all add: processEpoch_def wrap_numbers wrap_target exampleIndexer_def dbOk_def)

theorem epoch_target_walk_wraps_past_last_slot:
  "epochTarget_spec (cachedBlocks wrapState) 18446744073709551584 18446744073709551615 = None
   \<and> processEpoch exampleChain (exampleIndexer\<lparr>writeDb := False\<rparr>) dbOk wrapState
        576460752303423487 = Some (Inr (EpochProcessed [0]))
   \<and> BuildLiveEpoch exampleChain wrapState 576460752303423487 = Some (Some [0])"
proof -
  have "BuildLiveEpoch exampleChain wrapState 576460752303423487 = Some (Some [0])"
    by (simp add: BuildLiveEpoch_def wrap_numbers wrap_first) (simp add: exampleBlock_def)
  then show ?thesis by (simp add: wrap_processEpoch wrap_numbers(1) wrap_spec)
qed

section \<open>The processing frontier\<close>

text \<open>
  C1, amended. processEpoch writes no state. Whenever processIndexing finds
  \<open>lastProcessedEpoch\<close> below \<open>currentEpoch - epochProcessingDelay\<close> and its call of
  processEpoch returns, it sets \<open>lastProcessedEpoch\<close> to that epoch, whatever the call
  returned (processed, no canonical block, transaction not begun, commit failed); the
  next iteration on the same head does not call processEpoch again.
\<close>

theorem frontier_assigned_after_every_returning_call:
  assumes "processIndexing cfg ix db s = Some (Inr (s', r))"
  shows "if lastProcessedEpoch s < frontierEpoch cfg ix s
         then s' = s\<lparr>lastProcessedEpoch := frontierEpoch cfg ix s\<rparr>
            \<and> (\<exists>out. r = Some out
                  \<and> processEpoch cfg ix db s (frontierEpoch cfg ix s) = Some (Inr out))
            \<and> processIndexing cfg ix db s' = Some (Inr (s', None))
         else s' = s \<and> r = None"
proof (cases "lastProcessedEpoch s < frontierEpoch cfg ix s")
  case False
  with assms show ?thesis by (simp add: processIndexing_def)
next
  case True
  from True assms obtain y where
    y: "processEpoch cfg ix db s (frontierEpoch cfg ix s) = Some y"
    and k: "(case y of Inl f \<Rightarrow> Some (Inl f)
             | Inr out \<Rightarrow> Some (Inr (s\<lparr>lastProcessedEpoch := frontierEpoch cfg ix s\<rparr>, Some out)))
            = Some (Inr (s', r))"
    by (auto simp: processIndexing_def bind_eq_Some_conv)
  from k obtain out where
    yo: "y = Inr out" and s': "s' = s\<lparr>lastProcessedEpoch := frontierEpoch cfg ix s\<rparr>"
    and r: "r = Some out"
    by (cases y) auto
  note o = y[unfolded yo]
  have f: "frontierEpoch cfg ix s' = frontierEpoch cfg ix s"
    by (simp add: s' frontierEpoch_def)
  have "processIndexing cfg ix db s' = Some (Inr (s', None))"
    unfolding processIndexing_def f by (simp add: s')
  with True o s' r show ?thesis by simp
qed

lemma frontier_run:
  "processIndexing exampleChain exampleIndexer dbOk frontierState
       = Some (Inr (frontierState\<lparr>lastProcessedEpoch := 1\<rparr>, Some NoTargetBlock))"
  "lastProcessedEpoch frontierState < frontierEpoch exampleChain exampleIndexer frontierState"
proof -
  have f: "frontierEpoch exampleChain exampleIndexer frontierState = 1"
    by (simp add: frontierEpoch_def frontierState_def example_defs)
  have a: "processEpoch exampleChain exampleIndexer dbOk frontierState 1 = Some (Inr NoTargetBlock)"
    by (simp add: processEpoch_def frontierState_def example_defs target_steps)
  have l: "lastProcessedEpoch frontierState = 0" by (simp add: frontierState_def example_defs)
  show "processIndexing exampleChain exampleIndexer dbOk frontierState
       = Some (Inr (frontierState\<lparr>lastProcessedEpoch := 1\<rparr>, Some NoTargetBlock))"
    unfolding processIndexing_def f by (simp add: a l)
  show "lastProcessedEpoch frontierState < frontierEpoch exampleChain exampleIndexer frontierState"
    unfolding f l by simp
qed

theorem frontier_assigned_after_every_returning_call_witness:
  "frontierEpoch exampleChain exampleIndexer frontierState = 1
   \<and> processEpoch exampleChain exampleIndexer dbOk frontierState 1 = Some (Inr NoTargetBlock)
   \<and> processIndexing exampleChain exampleIndexer dbOk (frontierState\<lparr>lastProcessedEpoch := 1\<rparr>)
       = Some (Inr (frontierState\<lparr>lastProcessedEpoch := 1\<rparr>, None))"
proof -
  have f: "frontierEpoch exampleChain exampleIndexer frontierState = 1"
    by (simp add: frontierEpoch_def frontierState_def example_defs)
  from frontier_assigned_after_every_returning_call[OF frontier_run(1)] frontier_run(2) show ?thesis
    unfolding f by auto
qed

text \<open>
  An epoch without a canonical block, and an epoch whose commit fails: both times
  \<open>lastProcessedEpoch\<close> moves from 0 to 1, and the next iteration has nothing to do.
\<close>

theorem failed_epoch_is_not_retried:
  "processEpoch exampleChain exampleIndexer dbOk frontierState 1 = Some (Inr NoTargetBlock)
   \<and> processIndexing exampleChain exampleIndexer dbOk frontierState
       = Some (Inr (frontierState\<lparr>lastProcessedEpoch := 1\<rparr>, Some NoTargetBlock))
   \<and> processIndexing exampleChain exampleIndexer dbOk (frontierState\<lparr>lastProcessedEpoch := 1\<rparr>)
       = Some (Inr (frontierState\<lparr>lastProcessedEpoch := 1\<rparr>, None))
   \<and> processEpoch exampleChain exampleIndexer dbCommitFails
        (frontierState\<lparr>cachedBlocks := [32 \<mapsto> [exampleBlock 32]]\<rparr>) 1
       = Some (Inr DbCommitFailed)
   \<and> processIndexing exampleChain exampleIndexer dbCommitFails
        (frontierState\<lparr>cachedBlocks := [32 \<mapsto> [exampleBlock 32]]\<rparr>)
       = Some (Inr (frontierState\<lparr>cachedBlocks := [32 \<mapsto> [exampleBlock 32]],
                                  lastProcessedEpoch := 1\<rparr>, Some DbCommitFailed))"
proof -
  have f: "frontierEpoch exampleChain exampleIndexer frontierState = 1"
    "frontierEpoch exampleChain exampleIndexer (frontierState\<lparr>lastProcessedEpoch := 1\<rparr>) = 1"
    "frontierEpoch exampleChain exampleIndexer
       (frontierState\<lparr>cachedBlocks := [32 \<mapsto> [exampleBlock 32]]\<rparr>) = 1"
    by (simp_all add: frontierEpoch_def frontierState_def example_defs)
  have a: "processEpoch exampleChain exampleIndexer dbOk frontierState 1 = Some (Inr NoTargetBlock)"
    by (simp add: processEpoch_def frontierState_def example_defs target_steps)
  have b: "processEpoch exampleChain exampleIndexer dbCommitFails
        (frontierState\<lparr>cachedBlocks := [32 \<mapsto> [exampleBlock 32]]\<rparr>) 1
       = Some (Inr DbCommitFailed)"
    by (simp add: processEpoch_def frontierState_def example_defs target_steps)
  have l: "lastProcessedEpoch frontierState = 0" by (simp add: frontierState_def example_defs)
  show ?thesis
    unfolding processIndexing_def f by (simp add: a b l)
qed

section \<open>The cache cleanup\<close>

declare dropLoop.simps [simp del]

lemma word_succ_facts:
  fixes lcs limit :: u64
  assumes "lcs < limit"
  shows "unat (lcs + 1) = Suc (unat lcs)" "lcs < lcs + 1" "lcs + 1 \<le> limit"
proof -
  have a: "unat lcs < unat limit" using assms by (simp add: word_less_nat_alt)
  have b: "unat limit < 2 ^ 64" using unsigned_less[of limit] by simp
  from a b show c: "unat (lcs + 1) = Suc (unat lcs)" by (simp add: unat_word_ariths)
  from c show "lcs < lcs + 1" by (simp add: word_less_nat_alt)
  from a c show "lcs + 1 \<le> limit" by (simp add: word_le_nat_alt)
qed

lemma dropLoop_snd: "snd (dropLoop cb lcs limit) = (if lcs < limit then limit else lcs)"
proof (induction cb lcs limit rule: dropLoop.induct)
  case (1 cb lcs limit)
  show ?case
  proof (cases "lcs < limit")
    case False
    then show ?thesis by (subst dropLoop.simps) simp
  next
    case True
    note w = word_succ_facts[OF True]
    have "snd (dropLoop cb lcs limit)
            = snd (dropLoop (if cb lcs \<noteq> None then cb(lcs := None) else cb) (lcs + 1) limit)"
      using True by (subst dropLoop.simps) simp
    also have "\<dots> = (if lcs + 1 < limit then limit else lcs + 1)" using 1[OF True] .
    also have "\<dots> = limit" using w(3) by auto
    finally show ?thesis using True by simp
  qed
qed

lemma dropLoop_fst:
  "fst (dropLoop cb lcs limit) k = (if lcs \<le> k \<and> k < limit then None else cb k)"
proof (induction cb lcs limit rule: dropLoop.induct)
  case (1 cb lcs limit)
  show ?case
  proof (cases "lcs < limit")
    case False
    then show ?thesis by (subst dropLoop.simps) auto
  next
    case True
    note w = word_succ_facts[OF True]
    let ?cb = "if cb lcs \<noteq> None then cb(lcs := None) else cb"
    have e: "fst (dropLoop cb lcs limit) k = fst (dropLoop ?cb (lcs + 1) limit) k"
      using True by (subst dropLoop.simps) simp
    have i: "fst (dropLoop ?cb (lcs + 1) limit) k
               = (if lcs + 1 \<le> k \<and> k < limit then None else ?cb k)"
      using 1[OF True] .
    have s: "lcs + 1 \<le> k \<longleftrightarrow> lcs \<le> k \<and> k \<noteq> lcs"
      using w(1) by (auto simp: word_le_nat_alt word_less_nat_alt) (metis le_antisym not_less_eq_eq word_unat_eq_iff)
    show ?thesis unfolding e i s using True by auto
  qed
qed

lemma processCacheCleanup_work:
  assumes "lowestCachedSlot s < cleanLimit cfg ix s"
  shows "lowestCachedSlot (processCacheCleanup cfg ix s) = cleanLimit cfg ix s"
    and "cachedBlocks (processCacheCleanup cfg ix s) k
           = (if lowestCachedSlot s \<le> k \<and> k < cleanLimit cfg ix s then None
              else cachedBlocks s k)"
    and "epochStats (processCacheCleanup cfg ix s) (cleanEpoch cfg ix s) = None"
    and "cachedAssignments (processCacheCleanup cfg ix s)
           = cachedAssignments s @
               (case epochStats s (cleanEpoch cfg ix s) of
                  None \<Rightarrow> []
                | Some es \<Rightarrow> [(cleanEpoch cfg ix s, Assignments es)])"
  using assms
  by (simp_all add: processCacheCleanup_def Let_def dropLoop_snd dropLoop_fst
        split: option.splits)

lemma processCacheCleanup_idle:
  "\<not> lowestCachedSlot s < cleanLimit cfg ix s \<Longrightarrow> processCacheCleanup cfg ix s = s"
  by (simp add: processCacheCleanup_def)

text \<open>
  C6, amended. Let \<open>T = (c - inMemoryEpochs + 1) * slotsPerEpoch\<close> for the current epoch
  \<open>c\<close>, in \<open>uint64\<close>. After a cleanup pass \<open>lowestCachedSlot\<close> is at least \<open>T\<close>;
  when every cached slot key was at least \<open>lowestCachedSlot\<close> before the pass, every
  cached slot key is at least \<open>T\<close> after it; GetCachedBlocks returns nil below
  \<open>lowestCachedSlot\<close>; and when the pass had slots to drop (\<open>lowestCachedSlot < T\<close> on
  entry) the EpochStats of epoch \<open>c - inMemoryEpochs\<close> is gone from the cache and its
  Assignments were handed to AddCachedEpochAssignments. A pass with nothing to drop
  changes nothing.
\<close>

theorem cache_cleanup_pass:
  "cleanLimit cfg ix s \<le> lowestCachedSlot (processCacheCleanup cfg ix s)
   \<and> ((\<forall>k. cachedBlocks s k \<noteq> None \<longrightarrow> lowestCachedSlot s \<le> k) \<longrightarrow>
        (\<forall>k. cachedBlocks (processCacheCleanup cfg ix s) k \<noteq> None \<longrightarrow> cleanLimit cfg ix s \<le> k))
   \<and> (\<forall>slot. slot < lowestCachedSlot (processCacheCleanup cfg ix s) \<longrightarrow>
          GetCachedBlocks (processCacheCleanup cfg ix s) slot = None)
   \<and> (lowestCachedSlot s < cleanLimit cfg ix s \<longrightarrow>
          epochStats (processCacheCleanup cfg ix s) (cleanEpoch cfg ix s) = None
        \<and> cachedAssignments (processCacheCleanup cfg ix s)
            = cachedAssignments s @
                (case epochStats s (cleanEpoch cfg ix s) of
                   None \<Rightarrow> []
                 | Some es \<Rightarrow> [(cleanEpoch cfg ix s, Assignments es)]))
   \<and> (\<not> lowestCachedSlot s < cleanLimit cfg ix s \<longrightarrow> processCacheCleanup cfg ix s = s)"
proof (cases "lowestCachedSlot s < cleanLimit cfg ix s")
  case True
  note w = processCacheCleanup_work[OF True]
  have "cleanLimit cfg ix s \<le> k"
    if a: "\<forall>k. cachedBlocks s k \<noteq> None \<longrightarrow> lowestCachedSlot s \<le> k"
      and b: "cachedBlocks (processCacheCleanup cfg ix s) k \<noteq> None" for k
  proof -
    from b w(2)[of k] have c: "\<not> (lowestCachedSlot s \<le> k \<and> k < cleanLimit cfg ix s)"
      and d: "cachedBlocks s k \<noteq> None" by (auto split: if_splits)
    from a d have "lowestCachedSlot s \<le> k" by blast
    with c show ?thesis by simp
  qed
  then show ?thesis using True w(1,3,4) by (simp add: GetCachedBlocks_def)
next
  case False
  then show ?thesis
    by (auto simp: processCacheCleanup_idle GetCachedBlocks_def)
qed

lemma cleanup_example_numbers:
  "cleanEpoch exampleChain exampleIndexer cleanupState = 2"
  "cleanLimit exampleChain exampleIndexer cleanupState = 96"
  by (simp_all add: cleanLimit_def cleanEpoch_def cleanupState_def example_defs)

theorem cache_cleanup_pass_witness:
  "96 \<le> lowestCachedSlot (processCacheCleanup exampleChain exampleIndexer cleanupState)
   \<and> GetCachedBlocks (processCacheCleanup exampleChain exampleIndexer cleanupState) 60 = None
   \<and> epochStats (processCacheCleanup exampleChain exampleIndexer cleanupState) 2 = None
   \<and> cachedAssignments (processCacheCleanup exampleChain exampleIndexer cleanupState)
       = [(2, Assignments exampleStats)]"
proof -
  note t = cache_cleanup_pass[of exampleChain exampleIndexer cleanupState, unfolded cleanup_example_numbers]
  have l: "lowestCachedSlot cleanupState < 96" "epochStats cleanupState 2 = Some exampleStats"
    "cachedAssignments cleanupState = []"
    by (simp_all add: cleanupState_def example_defs)
  from t have a: "96 \<le> lowestCachedSlot (processCacheCleanup exampleChain exampleIndexer cleanupState)"
    by blast
  then have "(60 :: u64) < lowestCachedSlot (processCacheCleanup exampleChain exampleIndexer cleanupState)"
    by (simp add: word_le_nat_alt word_less_nat_alt)
  with t have b: "GetCachedBlocks (processCacheCleanup exampleChain exampleIndexer cleanupState) 60 = None"
    by blast
  from t l show ?thesis using a b by simp
qed

text \<open>
  A pass that finds the watermark already at or past \<open>T\<close> leaves the stats of the
  dropped epoch cached. And slot 0 stays cached below the watermark: the insert at slot
  1 moves a watermark of 0 up to 1, and the drop loop starts at the watermark.
\<close>

lemma genesisHeadState_reached:
  "Option.bind (processHeadBlock NewIndexerState 0 \<lparr>Root = [1], Slot = 0, ParentRoot = [0]\<rparr> 0)
     (\<lambda>r1. Option.bind (processHeadBlock (fst r1) 1 \<lparr>Root = [2], Slot = 1, ParentRoot = [1]\<rparr> 0)
        (\<lambda>r2. map_option fst
                 (processHeadBlock (fst r2) 163 \<lparr>Root = [3], Slot = 163, ParentRoot = [2]\<rparr> 0)))
   = Some genesisHeadState"
  by (simp add: head_defs walk_steps genesisHeadState_def NewIndexerState_def)

lemma genesis_cleanup:
  "cleanLimit exampleChain exampleIndexer genesisHeadState = 96
   \<and> cachedBlocks (processCacheCleanup exampleChain exampleIndexer genesisHeadState) 0
       = Some [\<lparr>Header = \<lparr>Root = [1], Slot = 0, ParentRoot = [0]\<rparr>, Block = 0,
                Orphaned = False\<rparr>]"
proof -
  have n: "cleanLimit exampleChain exampleIndexer genesisHeadState = 96"
    by (simp add: cleanLimit_def cleanEpoch_def genesisHeadState_def example_defs)
  have w: "lowestCachedSlot genesisHeadState < cleanLimit exampleChain exampleIndexer genesisHeadState"
    unfolding n by (simp add: genesisHeadState_def NewIndexerState_def)
  have "cachedBlocks (processCacheCleanup exampleChain exampleIndexer genesisHeadState) 0
       = Some [\<lparr>Header = \<lparr>Root = [1], Slot = 0, ParentRoot = [0]\<rparr>, Block = 0,
                Orphaned = False\<rparr>]"
    unfolding processCacheCleanup_work(2)[OF w] n
    by (simp add: genesisHeadState_def NewIndexerState_def)
  with n show ?thesis by simp
qed

lemma idle_cleanup:
  "\<not> lowestCachedSlot idleCleanupState < cleanLimit exampleChain exampleIndexer idleCleanupState"
  "cleanEpoch exampleChain exampleIndexer idleCleanupState = 2"
  "epochStats idleCleanupState 2 = Some exampleStats"
  "cachedAssignments idleCleanupState = []"
  by (simp_all add: cleanLimit_def cleanEpoch_def idleCleanupState_def example_defs)

theorem cleanup_keeps_stats_and_genesis_slot:
  "\<not> lowestCachedSlot idleCleanupState < cleanLimit exampleChain exampleIndexer idleCleanupState
   \<and> cleanEpoch exampleChain exampleIndexer idleCleanupState = 2
   \<and> epochStats (processCacheCleanup exampleChain exampleIndexer idleCleanupState) 2
       = Some exampleStats
   \<and> cachedAssignments (processCacheCleanup exampleChain exampleIndexer idleCleanupState) = []
   \<and> Option.bind
        (processHeadBlock NewIndexerState 0 \<lparr>Root = [1], Slot = 0, ParentRoot = [0]\<rparr> 0)
        (\<lambda>r1. Option.bind
           (processHeadBlock (fst r1) 1 \<lparr>Root = [2], Slot = 1, ParentRoot = [1]\<rparr> 0)
           (\<lambda>r2. map_option fst
              (processHeadBlock (fst r2) 163 \<lparr>Root = [3], Slot = 163, ParentRoot = [2]\<rparr> 0)))
       = Some genesisHeadState
   \<and> cleanLimit exampleChain exampleIndexer genesisHeadState = 96
   \<and> cachedBlocks (processCacheCleanup exampleChain exampleIndexer genesisHeadState) 0
       = Some [\<lparr>Header = \<lparr>Root = [1], Slot = 0, ParentRoot = [0]\<rparr>, Block = 0,
                Orphaned = False\<rparr>]"
  using genesisHeadState_reached genesis_cleanup
  by (simp add: processCacheCleanup_idle[OF idle_cleanup(1)] idle_cleanup)

section \<open>Unchecked subtraction of the epoch counters\<close>

lemma unat_ucast16: "unat (ucast (d :: u16) :: u64) = unat d"
proof -
  have "unat d < 2 ^ 16" using unsigned_less[of d] by simp
  then have "unat d < 2 ^ 64" by simp
  then show ?thesis by (simp add: unsigned_ucast_eq take_bit_nat_eq_self)
qed

lemma wrap_sub:
  fixes a b :: u64
  assumes "a < b"
  shows "unat (a - b) = 2 ^ 64 - (unat b - unat a)"
proof -
  have "unat a < unat b" using assms by (simp add: word_less_nat_alt)
  moreover have "unat b < 2 ^ 64" using unsigned_less[of b] by simp
  ultimately show ?thesis by (simp add: unat_sub_if' word_size)
qed

lemma guard_no_wrap:
  fixes c :: u64 and d :: u16
  assumes "ucast d <s c"
  shows "ucast d < c"
proof -
  have d: "0 \<le> uint d" "uint d < 2 ^ 16" using uint_bounded[of d] by simp_all
  then have d63: "uint d < 2 ^ 63" by simp
  have "signed_take_bit 63 (uint d) = uint d"
  proof (rule signed_take_bit_int_eq_self)
    have "- (2 ^ 63) \<le> (0 :: int)" by simp
    then show "- (2 ^ 63) \<le> uint d" using uint_nonnegative[of d] by (rule order_trans)
    show "uint d < 2 ^ 63" by (rule d63)
  qed
  then have sd: "sint (ucast d :: u64) = uint d"
    by (simp add: signed_ucast_eq)
  have ud: "uint (ucast d :: u64) = uint d"
    using d by (simp add: unsigned_ucast_eq take_bit_int_eq_self)
  from assms sd have p: "uint d < sint c" by (simp add: word_sless_alt)
  have "sint c < 2 ^ 63" using sint_lt[of c] by simp
  moreover have "0 \<le> sint c" using p uint_nonnegative[of d] by linarith
  ultimately have "take_bit 64 (sint c) = sint c"
    by (intro take_bit_int_eq_self) simp_all
  moreover have "uint c = take_bit 64 (sint c)" by (simp add: uint_sint)
  ultimately have "uint c = sint c" by (simp only:)
  with p ud show ?thesis by (simp add: word_less_def)
qed

text \<open>
  C10, amended. processIndexing computes \<open>currentEpoch - epochProcessingDelay\<close> and
  processCacheCleanup computes \<open>currentEpoch - inMemoryEpochs\<close> in \<open>uint64\<close> with no
  check: below the delay (the window) the difference is \<open>2^64\<close> minus the shortfall, a
  value within 65535 of \<open>2^64\<close>. processIndexing then calls processEpoch on the wrapped
  epoch and, when that call returns, sets \<open>lastProcessedEpoch\<close> to it; the cleanup uses
  the wrapped epoch for its slot bound and for the stats it evicts. The guards of the
  bootstrap keep its two subtractions from wrapping and leave the fields alone
  otherwise; the two loop functions have no such guard.
\<close>

theorem epoch_subtractions_wrap:
  "(EpochOfSlot cfg (lastHeadBlock s) < ucast (epochProcessingDelay ix) \<longrightarrow>
      unat (frontierEpoch cfg ix s)
        = 2 ^ 64 - (unat (epochProcessingDelay ix) - unat (EpochOfSlot cfg (lastHeadBlock s)))
      \<and> 2 ^ 64 - 65535 \<le> unat (frontierEpoch cfg ix s))
   \<and> (lastProcessedEpoch s < frontierEpoch cfg ix s \<longrightarrow>
        processIndexing cfg ix db s
          = Option.bind (processEpoch cfg ix db s (frontierEpoch cfg ix s))
              (\<lambda>r. case r of
                 Inl f \<Rightarrow> Some (Inl f)
               | Inr out \<Rightarrow>
                   Some (Inr (s\<lparr>lastProcessedEpoch := frontierEpoch cfg ix s\<rparr>, Some out))))
   \<and> (EpochOfSlot cfg (lastHeadBlock s) < ucast (inMemoryEpochs ix) \<longrightarrow>
        unat (cleanEpoch cfg ix s)
          = 2 ^ 64 - (unat (inMemoryEpochs ix) - unat (EpochOfSlot cfg (lastHeadBlock s)))
        \<and> 2 ^ 64 - 65535 \<le> unat (cleanEpoch cfg ix s))
   \<and> (lowestCachedSlot s < (cleanEpoch cfg ix s + 1) * SlotsPerEpoch cfg \<longrightarrow>
        lowestCachedSlot (processCacheCleanup cfg ix s) = (cleanEpoch cfg ix s + 1) * SlotsPerEpoch cfg
        \<and> epochStats (processCacheCleanup cfg ix s) (cleanEpoch cfg ix s) = None)
   \<and> (\<not> ucast (epochProcessingDelay ix) <s currentEpoch \<longrightarrow>
        lastProcessedEpoch (bootstrap cfg ix afterGenesis currentEpoch s) = lastProcessedEpoch s)
   \<and> (\<not> ucast (inMemoryEpochs ix) <s currentEpoch \<longrightarrow>
        lastHeadBlock (bootstrap cfg ix afterGenesis currentEpoch s) = lastHeadBlock s)
   \<and> (afterGenesis \<and> ucast (epochProcessingDelay ix) <s currentEpoch \<longrightarrow>
        lastProcessedEpoch (bootstrap cfg ix afterGenesis currentEpoch s)
          = currentEpoch - ucast (epochProcessingDelay ix)
        \<and> unat (currentEpoch - ucast (epochProcessingDelay ix))
            = unat currentEpoch - unat (epochProcessingDelay ix)
        \<and> unat (epochProcessingDelay ix) < unat currentEpoch)"
proof -
  have d16: "unat d \<le> 65535" for d :: u16
    using unsigned_less[of d, where 'a = nat] by simp
  have a: "unat (frontierEpoch cfg ix s)
        = 2 ^ 64 - (unat (epochProcessingDelay ix) - unat (EpochOfSlot cfg (lastHeadBlock s)))
      \<and> 2 ^ 64 - 65535 \<le> unat (frontierEpoch cfg ix s)"
    if "EpochOfSlot cfg (lastHeadBlock s) < ucast (epochProcessingDelay ix)"
    using wrap_sub[OF that] d16[of "epochProcessingDelay ix"]
    by (simp add: frontierEpoch_def unat_ucast16)
  have b: "unat (cleanEpoch cfg ix s)
          = 2 ^ 64 - (unat (inMemoryEpochs ix) - unat (EpochOfSlot cfg (lastHeadBlock s)))
        \<and> 2 ^ 64 - 65535 \<le> unat (cleanEpoch cfg ix s)"
    if "EpochOfSlot cfg (lastHeadBlock s) < ucast (inMemoryEpochs ix)"
    using wrap_sub[OF that] d16[of "inMemoryEpochs ix"]
    by (simp add: cleanEpoch_def unat_ucast16)
  have c: "lowestCachedSlot (processCacheCleanup cfg ix s) = (cleanEpoch cfg ix s + 1) * SlotsPerEpoch cfg
        \<and> epochStats (processCacheCleanup cfg ix s) (cleanEpoch cfg ix s) = None"
    if "lowestCachedSlot s < (cleanEpoch cfg ix s + 1) * SlotsPerEpoch cfg"
    using processCacheCleanup_work(1,3)[of s cfg ix] that by (simp add: cleanLimit_def)
  have e: "unat (currentEpoch - ucast (epochProcessingDelay ix))
            = unat currentEpoch - unat (epochProcessingDelay ix)
        \<and> unat (epochProcessingDelay ix) < unat currentEpoch"
    if "ucast (epochProcessingDelay ix) <s currentEpoch"
  proof -
    from guard_no_wrap[OF that] have l: "ucast (epochProcessingDelay ix) < currentEpoch" .
    then have "unat (currentEpoch - ucast (epochProcessingDelay ix))
                 = unat currentEpoch - unat (ucast (epochProcessingDelay ix) :: u64)"
      by (intro unat_sub) simp
    with l show ?thesis by (simp add: unat_ucast16 word_less_nat_alt)
  qed
  have f: "processIndexing cfg ix db s
          = Option.bind (processEpoch cfg ix db s (frontierEpoch cfg ix s))
              (\<lambda>r. case r of
                 Inl f \<Rightarrow> Some (Inl f)
               | Inr out \<Rightarrow>
                   Some (Inr (s\<lparr>lastProcessedEpoch := frontierEpoch cfg ix s\<rparr>, Some out)))"
    if "lastProcessedEpoch s < frontierEpoch cfg ix s"
    using that by (simp add: processIndexing_def)
  have g: "lastProcessedEpoch (bootstrap cfg ix afterGenesis currentEpoch s) = lastProcessedEpoch s"
    if "\<not> ucast (epochProcessingDelay ix) <s currentEpoch"
    using that by (simp add: bootstrap_def Let_def)
  have h: "lastHeadBlock (bootstrap cfg ix afterGenesis currentEpoch s) = lastHeadBlock s"
    if "\<not> ucast (inMemoryEpochs ix) <s currentEpoch"
    using that by (simp add: bootstrap_def Let_def)
  have i: "lastProcessedEpoch (bootstrap cfg ix afterGenesis currentEpoch s)
          = currentEpoch - ucast (epochProcessingDelay ix)"
    if "afterGenesis \<and> ucast (epochProcessingDelay ix) <s currentEpoch"
    using that by (simp add: bootstrap_def Let_def)
  show ?thesis
    using a b c e f g h i by blast
qed

text \<open>
  With the head in epoch 0 and a delay of 1 the frontier is epoch \<open>2^64 - 1\<close>. Its slot
  loop returns here because a block is cached at slot 0, and stats exist for it.
\<close>

lemma wrap_frontier:
  "frontierEpoch exampleChain exampleIndexer wrapState = 18446744073709551615"
  "cleanEpoch exampleChain exampleIndexer wrapState = 18446744073709551613"
  "EpochOfSlot exampleChain (lastHeadBlock wrapState) = 0"
  by (simp_all add: frontierEpoch_def cleanEpoch_def wrap_numbers exampleChain_def exampleIndexer_def)

lemma ucast_example:
  "(ucast (epochProcessingDelay exampleIndexer) :: u64) = 1"
  "(ucast (inMemoryEpochs exampleIndexer) :: u64) = 3"
  by (simp_all add: exampleIndexer_def)

lemma fresh_frontier:
  "frontierEpoch exampleChain exampleIndexer NewIndexerState = 18446744073709551615"
  "EpochOfSlot exampleChain (lastHeadBlock NewIndexerState) = 0"
  "lastProcessedEpoch NewIndexerState = 0"
  "epochStats NewIndexerState 18446744073709551615 = None"
  by (simp_all add: frontierEpoch_def NewIndexerState_def exampleChain_def exampleIndexer_def)

theorem epoch_subtractions_wrap_witness:
  "unat (frontierEpoch exampleChain exampleIndexer wrapState) = 18446744073709551615
   \<and> processIndexing exampleChain exampleIndexer dbOk wrapState
       = Some (Inr (wrapState\<lparr>lastProcessedEpoch := 18446744073709551615\<rparr>,
                    Some (EpochProcessed [0])))
   \<and> unat (cleanEpoch exampleChain exampleIndexer wrapState) = 18446744073709551613
   \<and> lastProcessedEpoch (bootstrap exampleChain exampleIndexer True 0 NewIndexerState) = 0
   \<and> lastHeadBlock (bootstrap exampleChain exampleIndexer True 0 NewIndexerState) = 0
   \<and> lastProcessedEpoch (bootstrap exampleChain exampleIndexer True 5 NewIndexerState) = 4"
proof -
  note t = epoch_subtractions_wrap[of exampleChain wrapState exampleIndexer dbOk 0 True]
  have g: "\<not> ucast (epochProcessingDelay exampleIndexer) <s (0 :: u64)"
    "\<not> ucast (inMemoryEpochs exampleIndexer) <s (0 :: u64)"
    "ucast (epochProcessingDelay exampleIndexer) <s (5 :: u64)"
    by (simp_all add: exampleIndexer_def word_sless_alt)
  have l: "EpochOfSlot exampleChain (lastHeadBlock wrapState) < ucast (epochProcessingDelay exampleIndexer)"
    "EpochOfSlot exampleChain (lastHeadBlock wrapState) < ucast (inMemoryEpochs exampleIndexer)"
    "lastProcessedEpoch wrapState < frontierEpoch exampleChain exampleIndexer wrapState"
    by (simp_all add: wrap_frontier ucast_example wrap_numbers(7))
  have a: "unat (frontierEpoch exampleChain exampleIndexer wrapState) = 18446744073709551615"
    "unat (cleanEpoch exampleChain exampleIndexer wrapState) = 18446744073709551613"
    using t l by (simp_all add: wrap_frontier ucast_example exampleIndexer_def)
  have b: "processIndexing exampleChain exampleIndexer dbOk wrapState
       = Some (Inr (wrapState\<lparr>lastProcessedEpoch := 18446744073709551615\<rparr>,
                    Some (EpochProcessed [0])))"
    using t l(3) by (simp add: wrap_frontier wrap_processEpoch)
  have c: "lastProcessedEpoch (bootstrap exampleChain exampleIndexer True 0 NewIndexerState) = 0"
    "lastHeadBlock (bootstrap exampleChain exampleIndexer True 0 NewIndexerState) = 0"
    using epoch_subtractions_wrap[of exampleChain NewIndexerState exampleIndexer dbOk 0 True] g
    by (simp_all add: NewIndexerState_def)
  have d: "lastProcessedEpoch (bootstrap exampleChain exampleIndexer True 5 NewIndexerState) = 4"
    using epoch_subtractions_wrap[of exampleChain NewIndexerState exampleIndexer dbOk 5 True] g(3)
    by (simp add: exampleIndexer_def)
  from a b c d show ?thesis by simp
qed

text \<open>
  The new indexer with the head in epoch 0: the wrapped epoch has no stats, the call
  of processEpoch dereferences nil, and \<open>lastProcessedEpoch\<close> is never assigned.
\<close>

theorem wrapped_frontier_without_stats_panics:
  "EpochOfSlot exampleChain (lastHeadBlock NewIndexerState)
     < ucast (epochProcessingDelay exampleIndexer)
   \<and> lastProcessedEpoch NewIndexerState < frontierEpoch exampleChain exampleIndexer NewIndexerState
   \<and> processIndexing exampleChain exampleIndexer dbOk NewIndexerState = Some (Inl NilDereference)"
  by (simp add: processIndexing_def processEpoch_def fresh_frontier ucast_example)

section \<open>The latch of the validator set\<close>

lemma loadValidators_mutex: "ValidatorsMutex (loadValidators resp v) = ValidatorsMutex v"
  by (induction resp arbitrary: v) (simp_all add: Let_def)

lemma storeValidators_latch:
  "validatorsStore s a = Some v \<Longrightarrow>
   \<exists>v'. validatorsStore (storeValidators resp epoch es s) a = Some v'
        \<and> ValidatorsMutex v' = ValidatorsMutex v"
  by (auto simp: storeValidators_def Let_def loadValidators_mutex split: option.splits)

lemma unlockValidators_locked:
  "validatorsStore s a = Some v \<Longrightarrow> ValidatorsMutex v = Locked \<Longrightarrow>
   fst (unlockValidators a s) = None
   \<and> (\<exists>v'. validatorsStore (snd (unlockValidators a s)) a = Some v' \<and> ValidatorsMutex v' = Unlocked)
   \<and> epochStats (snd (unlockValidators a s)) = epochStats s"
  by (simp add: unlockValidators_def)

lemma storeValidators_epochStats: "epochStats (storeValidators resp epoch es s) = epochStats s"
  by (simp add: storeValidators_def Let_def split: option.splits)

lemma loadEpochStats_latch:
  assumes "validatorsStore s (Validators es) = Some v" "ValidatorsMutex v = Locked"
  shows "(\<exists>v'. validatorsStore (snd (loadEpochStats rpc s epoch es)) (Validators es) = Some v'
            \<and> ValidatorsMutex v' = Unlocked)
     \<and> fst (loadEpochStats rpc s epoch es) \<noteq> Some UnlockOfUnlockedMutex
     \<and> fst (loadEpochStats rpc s epoch es) \<noteq> Some LatchHeld
     \<and> (Assignments es \<noteq> None \<longrightarrow> fst (loadEpochStats rpc s epoch es) = None)
     \<and> epochStats (snd (loadEpochStats rpc s epoch es)) = epochStats s"
proof (cases "Assignments es")
  case None
  with assms unlockValidators_locked[OF assms] show ?thesis
    by (cases "unlockValidators (Validators es) s") (auto simp: loadEpochStats_def)
next
  case (Some a)
  show ?thesis
  proof (cases "rpc (DependendState a)")
    case (Inl err)
    with Some assms unlockValidators_locked[OF assms] show ?thesis
      by (simp add: loadEpochStats_def)
  next
    case (Inr resp)
    from storeValidators_latch[OF assms(1), of resp epoch es] assms(2) obtain v1 where
      v1: "validatorsStore (storeValidators resp epoch es s) (Validators es) = Some v1"
        "ValidatorsMutex v1 = Locked"
      by auto
    from Some Inr assms unlockValidators_locked[OF v1] show ?thesis
      by (simp add: loadEpochStats_def storeValidators_epochStats)
  qed
qed

lemma newEpochStats_locks:
  assumes "newEpochStats s0 e0 dr = (s1, Some es1, True)"
  shows "\<exists>v1. validatorsStore s1 (Validators es1) = Some v1 \<and> ValidatorsMutex v1 = Locked"
  using assms
  by (auto simp: newEpochStats_def Let_def split: if_splits option.splits)

text \<open>
  C7. newEpochStats hands out \<open>loadStats = true\<close> only together with a validator set
  whose latch it locked. From any state in which that latch is locked, loadEpochStats
  ends with the latch unlocked, for every answer of the validator fetch (an error or a
  response) and also when the task panics on a nil \<open>Assignments\<close>. It unlocks once: it
  does not end in the fatal error of a second unlock, and one more unlock would. Before
  the task ran, processEpoch of an epoch whose stats point to that validator set waits
  on the latch; after it, processEpoch does not wait.
\<close>

theorem validators_latch_released_on_every_path:
  assumes "validatorsStore s (Validators es) = Some v" and "ValidatorsMutex v = Locked"
  shows "(\<exists>v'. validatorsStore (snd (loadEpochStats rpc s epoch es)) (Validators es) = Some v'
            \<and> ValidatorsMutex v' = Unlocked)
     \<and> fst (loadEpochStats rpc s epoch es) \<noteq> Some UnlockOfUnlockedMutex
     \<and> fst (unlockValidators (Validators es) (snd (loadEpochStats rpc s epoch es)))
         = Some UnlockOfUnlockedMutex
     \<and> (\<forall>e es'. epochStats s e = Some es' \<and> Validators es' = Validators es \<longrightarrow>
           processEpoch cfg ix db s e = Some (Inl LatchHeld)
           \<and> processEpoch cfg ix db (snd (loadEpochStats rpc s epoch es)) e \<noteq> Some (Inl LatchHeld))
     \<and> (\<forall>s0 e0 dr s1 es1. newEpochStats s0 e0 dr = (s1, Some es1, True) \<longrightarrow>
           (\<exists>v1. validatorsStore s1 (Validators es1) = Some v1 \<and> ValidatorsMutex v1 = Locked))"
proof -
  note l = loadEpochStats_latch[OF assms, of rpc epoch]
  let ?s' = "snd (loadEpochStats rpc s epoch es)"
  from l obtain v' where v': "validatorsStore ?s' (Validators es) = Some v'"
    "ValidatorsMutex v' = Unlocked" by blast
  have u: "fst (unlockValidators (Validators es) ?s') = Some UnlockOfUnlockedMutex"
    using v' by (simp add: unlockValidators_def)
  have p: "processEpoch cfg ix db s e = Some (Inl LatchHeld)
           \<and> processEpoch cfg ix db ?s' e \<noteq> Some (Inl LatchHeld)"
    if "epochStats s e = Some es' \<and> Validators es' = Validators es" for e es'
  proof -
    from that l have "epochStats ?s' e = Some es'" by simp
    with that v' assms show ?thesis
      by (auto simp: processEpoch_def Let_def bind_eq_Some_conv split: option.splits)
  qed
  from l u p newEpochStats_locks show ?thesis by blast
qed

text \<open>The fetch fails with a timeout; the latch of epoch 1 is released all the same.\<close>

theorem validators_latch_released_on_every_path_witness:
  "(\<exists>v'. validatorsStore (snd (loadEpochStats (\<lambda>_. Inl ''timeout'') latchState 1 exampleStats)) 0
            = Some v' \<and> ValidatorsMutex v' = Unlocked)
   \<and> fst (loadEpochStats (\<lambda>_. Inl ''timeout'') latchState 1 exampleStats)
       \<noteq> Some UnlockOfUnlockedMutex
   \<and> processEpoch exampleChain exampleIndexer dbOk latchState 1 = Some (Inl LatchHeld)
   \<and> processEpoch exampleChain exampleIndexer dbOk
        (snd (loadEpochStats (\<lambda>_. Inl ''timeout'') latchState 1 exampleStats)) 1
       \<noteq> Some (Inl LatchHeld)"
proof -
  have e: "validatorsStore latchState (Validators exampleStats)
             = Some (readyValidators\<lparr>ValidatorsMutex := Locked\<rparr>)"
    "ValidatorsMutex (readyValidators\<lparr>ValidatorsMutex := Locked\<rparr>) = Locked"
    "epochStats latchState 1 = Some exampleStats" "Validators exampleStats = 0"
    by (simp_all add: latchState_def exampleStats_def NewIndexerState_def)
  note t = validators_latch_released_on_every_path[OF e(1,2), of "\<lambda>_. Inl ''timeout''" 1 exampleChain exampleIndexer dbOk]
  from t have "\<forall>e es'. epochStats latchState e = Some es' \<and> Validators es' = Validators exampleStats \<longrightarrow>
           processEpoch exampleChain exampleIndexer dbOk latchState e = Some (Inl LatchHeld)
           \<and> processEpoch exampleChain exampleIndexer dbOk
                 (snd (loadEpochStats (\<lambda>_. Inl ''timeout'') latchState 1 exampleStats)) e
               \<noteq> Some (Inl LatchHeld)"
    by blast
  from this[rule_format, of 1 exampleStats] e(3)
  have p: "processEpoch exampleChain exampleIndexer dbOk latchState 1 = Some (Inl LatchHeld)
           \<and> processEpoch exampleChain exampleIndexer dbOk
                 (snd (loadEpochStats (\<lambda>_. Inl ''timeout'') latchState 1 exampleStats)) 1
               \<noteq> Some (Inl LatchHeld)"
    by simp
  from t p show ?thesis unfolding e(4) by blast
qed

section \<open>The duty endpoints outside their fork range\<close>

text \<open>
  C8, amended. GetProposerDuties for an epoch at or after the configured Whisk fork
  epoch returns \<open>nil, nil\<close>, a result that is not an error, without a request.
  GetSyncCommitteeDuties for an epoch before the Altair fork epoch returns nil with the
  error "cannot get sync committee duties for epoch before altair", without a request.
\<close>

theorem duty_endpoints_outside_fork_range:
  "(WhiskForkEpoch cfg = Some w \<and> w \<le> e1 \<longrightarrow> GetProposerDuties cfg getJson e1 = (None, None))
   \<and> (e2 < AltairForkEpoch cfg \<longrightarrow>
        GetSyncCommitteeDuties cfg isProvider provider stateRef e2
          = (None, Some (BeforeAltair e2)))"
  by (simp add: GetProposerDuties_def GetSyncCommitteeDuties_def)

theorem duty_endpoints_outside_fork_range_witness:
  "GetProposerDuties exampleChain (\<lambda>_. Inr (0::nat)) 100 = (None, None)
   \<and> GetSyncCommitteeDuties exampleChain True (\<lambda>_ _. Inr (0::nat)) ''head'' 9
       = (None, Some (BeforeAltair 9))"
  using duty_endpoints_outside_fork_range[where cfg = exampleChain and w = 100 and ?e1.0 = 100 and ?e2.0 = 9
             and getJson = "\<lambda>_. Inr (0::nat)" and isProvider = True
             and provider = "\<lambda>_ _. Inr (0::nat)" and stateRef = "''head''"]
  by (simp add: exampleChain_def)

text \<open>Epoch 9 with Altair at epoch 10: the second component, the error, is set.\<close>

theorem sync_committee_before_altair_is_an_error:
  "snd (GetSyncCommitteeDuties exampleChain True (\<lambda>_ _. Inr (0::nat)) ''head'' 9)
     = Some (BeforeAltair 9)
   \<and> snd (GetProposerDuties exampleChain (\<lambda>_. Inr (0::nat)) 100) = None"
  by (simp add: GetProposerDuties_def GetSyncCommitteeDuties_def exampleChain_def)

section \<open>Re-canonicalizing a branch of two blocks\<close>

text \<open>
  C2 at a branch of depth two. On the head at slot 9 insert \<open>A\<close> at slot 10 and its
  child at slot 11; a block at slot 12 with the slot-9 block as parent orphans both; a
  block at slot 13 whose parent is the slot-11 block makes the branch canonical again.
  The walk clears the flag of the slot-11 block, steps over \<open>A\<close> to the slot-9 block and
  stops there: \<open>A\<close>, an ancestor of the new head, keeps \<open>Orphaned = true\<close>.
\<close>

theorem two_deep_recanonicalization_leaves_ancestor_orphaned:
  "\<exists>s1 s2 s3 s4.
      processHeadBlock branchState 10 \<lparr>Root = [10], Slot = 10, ParentRoot = [9]\<rparr> 1
        = Some (s1, Some \<lparr>Header = \<lparr>Root = [10], Slot = 10, ParentRoot = [9]\<rparr>, Block = 1,
                          Orphaned = False\<rparr>)
    \<and> processHeadBlock s1 11 \<lparr>Root = [11], Slot = 11, ParentRoot = [10]\<rparr> 2
        = Some (s2, Some \<lparr>Header = \<lparr>Root = [11], Slot = 11, ParentRoot = [10]\<rparr>, Block = 2,
                          Orphaned = False\<rparr>)
    \<and> processHeadBlock s2 12 \<lparr>Root = [12], Slot = 12, ParentRoot = [9]\<rparr> 3
        = Some (s3, Some \<lparr>Header = \<lparr>Root = [12], Slot = 12, ParentRoot = [9]\<rparr>, Block = 3,
                          Orphaned = False\<rparr>)
    \<and> map_option (map Orphaned) (cachedBlocks s3 10) = Some [True]
    \<and> map_option (map Orphaned) (cachedBlocks s3 11) = Some [True]
    \<and> map_option (map Orphaned) (cachedBlocks s3 12) = Some [False]
    \<and> processHeadBlock s3 13 \<lparr>Root = [13], Slot = 13, ParentRoot = [11]\<rparr> 4
        = Some (s4, Some \<lparr>Header = \<lparr>Root = [13], Slot = 13, ParentRoot = [11]\<rparr>, Block = 4,
                          Orphaned = False\<rparr>)
    \<and> cachedBlocks s4 9
        = Some [\<lparr>Header = \<lparr>Root = [9], Slot = 9, ParentRoot = [8]\<rparr>, Block = 0,
                 Orphaned = False\<rparr>]
    \<and> cachedBlocks s4 10
        = Some [\<lparr>Header = \<lparr>Root = [10], Slot = 10, ParentRoot = [9]\<rparr>, Block = 1,
                 Orphaned = True\<rparr>]
    \<and> cachedBlocks s4 11
        = Some [\<lparr>Header = \<lparr>Root = [11], Slot = 11, ParentRoot = [10]\<rparr>, Block = 2,
                 Orphaned = False\<rparr>]
    \<and> cachedBlocks s4 12
        = Some [\<lparr>Header = \<lparr>Root = [12], Slot = 12, ParentRoot = [9]\<rparr>, Block = 3,
                 Orphaned = True\<rparr>]
    \<and> cachedBlocks s4 13
        = Some [\<lparr>Header = \<lparr>Root = [13], Slot = 13, ParentRoot = [11]\<rparr>, Block = 4,
                 Orphaned = False\<rparr>]"
  by (simp add: head_defs walk_steps branchState_def NewIndexerState_def)

end
